theory Spec2Isabelle
  imports Main
begin

section \<open>Values\<close>

text \<open>
  JavaScript values as far as the adapter and its tests handle them. Structured values are
  compared structurally (the tests use \<open>deepEqual\<close> on them); an error object carries an
  identity next to its message, so that two errors with the same message are different
  values; \<open>TypeError\<close> is an error the host raises. \<open>Promise a\<close> is a reference to the
  promise stored at address \<open>a\<close> of the heap: the only values that are awaitable. The
  adapter hands values on and never computes with them, so numbers are integers here.
\<close>

datatype val =
    Undefined
  | Null
  | Num int
  | Str string
  | Obj "(string \<times> val) list"
  | Arr "val list"
  | Error nat string
  | TypeError string
  | Promise nat

fun promise_addr :: "val \<Rightarrow> nat option" where
  "promise_addr (Promise a) = Some a"
| "promise_addr v = None"

definition awaitable :: "val \<Rightarrow> bool" where
  "awaitable v = (promise_addr v \<noteq> None)"

section \<open>Generator bodies\<close>

text \<open>
  Modelled from the spec: the host generator runtime (section 6, "host coroutine/generator
  runtime") is not part of the repository. A generator body is the tree of what it does up
  to its next suspension point. \<open>Yield v next throw\<close> suspends on \<open>v\<close>; \<open>next\<close> is the
  rest of the body when the generator is resumed with a value, \<open>throw\<close> the rest of the body
  when an error is raised at the suspension point: the handler of the enclosing
  \<open>try/catch\<close>, or \<open>Throw\<close> itself when the yield is not inside one. The other
  constructors are the calls the bodies in \<open>src/test/testFoo.js\<close> make before they yield,
  each binding the value the call returns.
\<close>

datatype gen =
    Return val
  | Throw val
  | Yield val "val \<Rightarrow> gen" "val \<Rightarrow> gen"
  | Call_Promise_resolve val "val \<Rightarrow> gen"
  | Call_belay val "val \<Rightarrow> gen"
  | Call_belayError val "val \<Rightarrow> gen"
  | Call_new_Promise_noop "val \<Rightarrow> gen"
  | Call_foo gen "val \<Rightarrow> gen"

type_synonym generatorFunction = "val list \<Rightarrow> gen"

section \<open>The host: promises and the event loop\<close>

text \<open>
  Modelled from the spec: the host promise implementations (Bluebird, Q, the built-in
  \<open>Promise\<close>) are external collaborators (section 6). A promise is a cell that is pending
  or settled with an outcome (section 4.1: pending, then fulfilled or rejected, both
  terminal), with the continuations registered on it while it is pending. Continuations
  never run inside the call that settles a promise: they are queued and the event loop runs
  them one at a time (section 5).

  A cell records which library made the promise (\<open>maker\<close>). A continuation is what
  \<open>then\<close> registers: \<open>Forward p\<close> stands for the pair \<open>resolve\<close>, \<open>reject\<close> of promise
  \<open>p\<close> (what the executor of \<open>src/test/testFoo.js\<close>, line 172, registers; also how a
  promise adopts the state of another), \<open>Resume\<close> for the two continuations of a suspended
  generator body with the promise of its wrapper call. A job is a continuation queued with
  the outcome it is called with, or a callback given to \<open>process.nextTick\<close> by \<open>belay\<close> or
  \<open>belayError\<close>. The world holds the heap of promises, the queue of jobs (one queue, in
  order of arrival) and the three global settings \<open>src/foo.js\<close> touches.
\<close>

datatype lib = Native | Bluebird | Q

datatype outcome = Fulfilled val | Rejected val

datatype variant = Bluebird_based | Q_based

datatype reaction =
    Forward nat
  | Resume variant "val \<Rightarrow> gen" "val \<Rightarrow> gen" nat

datatype job =
    Tick_resolve nat val
  | Tick_reject nat val
  | React reaction outcome

record cell =
  state :: "outcome option"
  waiting :: "reaction list"
  maker :: lib

datatype yield_handler = Resolve_handler

record world =
  heap :: "cell list"
  queue :: "job list"
  Promise_global :: lib
  longStackTraces :: bool
  yieldHandlers :: "yield_handler list"

text \<open>
  \<open>settle\<close> gives a pending promise its outcome and queues the continuations waiting on
  it; on a settled promise it does nothing. \<open>promise_then\<close> registers a continuation on a
  pending promise and queues it at once on a settled one. \<open>resolve\<close> is the resolving
  function of a promise: an awaitable is adopted, any other value fulfils. \<open>new_Promise\<close>
  is \<open>new Promise(executor)\<close> with the global constructor: the executor runs inside the
  call. A reference to an address outside the heap arises in no run; the operations leave
  the world as it is for one.
\<close>

definition new_cell :: "lib \<Rightarrow> outcome option \<Rightarrow> world \<Rightarrow> nat \<times> world" where
  "new_cell l s w =
     (length (heap w), w\<lparr>heap := heap w @ [\<lparr>state = s, waiting = [], maker = l\<rparr>]\<rparr>)"

definition settle :: "nat \<Rightarrow> outcome \<Rightarrow> world \<Rightarrow> world" where
  "settle p oc w =
     (if p < length (heap w) \<and> state (heap w ! p) = None
      then w\<lparr>heap := (heap w)[p := (heap w ! p)\<lparr>state := Some oc, waiting := []\<rparr>],
             queue := queue w @ map (\<lambda>r. React r oc) (waiting (heap w ! p))\<rparr>
      else w)"

definition promise_then :: "nat \<Rightarrow> reaction \<Rightarrow> world \<Rightarrow> world" where
  "promise_then q r w =
     (if q < length (heap w)
      then (case state (heap w ! q) of
              None \<Rightarrow> w\<lparr>heap := (heap w)[q := (heap w ! q)\<lparr>waiting := waiting (heap w ! q) @ [r]\<rparr>]\<rparr>
            | Some oc \<Rightarrow> w\<lparr>queue := queue w @ [React r oc]\<rparr>)
      else w)"

definition reject :: "nat \<Rightarrow> val \<Rightarrow> world \<Rightarrow> world" where
  "reject p e w = settle p (Rejected e) w"

definition resolve :: "nat \<Rightarrow> val \<Rightarrow> world \<Rightarrow> world" where
  "resolve p v w =
     (case promise_addr v of
        Some q \<Rightarrow>
          (if q = p then reject p (TypeError ''circular promise resolution chain'') w
           else promise_then q (Forward p) w)
      | None \<Rightarrow> settle p (Fulfilled v) w)"

definition nextTick :: "job \<Rightarrow> world \<Rightarrow> world" where
  "nextTick j w = w\<lparr>queue := queue w @ [j]\<rparr>"

definition new_Promise :: "(nat \<Rightarrow> world \<Rightarrow> world) \<Rightarrow> world \<Rightarrow> val \<times> world" where
  "new_Promise executor w =
     (let (p, w1) = new_cell (Promise_global w) None w in (Promise p, executor p w1))"

definition Promise_resolve :: "val \<Rightarrow> world \<Rightarrow> val \<times> world" where
  "Promise_resolve v w =
     (if awaitable v then (v, w)
      else (let (q, w1) = new_cell (Promise_global w) (Some (Fulfilled v)) w
            in (Promise q, w1)))"

section \<open>src/test/testFoo.js: belay and belayError\<close>

text \<open>
  Lines 27 to 50: a promise made with the global constructor, whose executor hands
  \<open>process.nextTick\<close> a callback that resolves (rejects) it.
\<close>

definition belay :: "val \<Rightarrow> world \<Rightarrow> val \<times> world" where
  "belay v w = new_Promise (\<lambda>p. nextTick (Tick_resolve p v)) w"

definition belayError :: "val \<Rightarrow> world \<Rightarrow> val \<times> world" where
  "belayError e w = new_Promise (\<lambda>p. nextTick (Tick_reject p e)) w"

section \<open>src/foo.js: what the module does when it is loaded\<close>

text \<open>
  Lines 59 to 64: the global \<open>Promise\<close> becomes Bluebird, long stack traces are turned
  on, and a yield handler is registered that returns \<open>Promise.resolve(value)\<close>. It is the
  only yield handler there is, so the registered handlers are a list of that one name.
\<close>

definition yieldHandler :: "val \<Rightarrow> world \<Rightarrow> val \<times> world" where
  "yieldHandler v w = Promise_resolve v w"

fun run_handler :: "yield_handler \<Rightarrow> val \<Rightarrow> world \<Rightarrow> val \<times> world" where
  "run_handler Resolve_handler v w = yieldHandler v w"

definition module_load :: "world \<Rightarrow> world" where
  "module_load w =
     w\<lparr>Promise_global := Bluebird,
       longStackTraces := True,
       yieldHandlers := yieldHandlers w @ [Resolve_handler]\<rparr>"

section \<open>The host coroutine layer\<close>

text \<open>
  Modelled from the spec: Bluebird's \<open>Promise.coroutine\<close> and \<open>Q.async\<close> are external
  (section 6); \<open>drive\<close> follows section 4.1, steps 1 to 3. It runs a generator body up to
  its next suspension point or its end, for the promise \<open>p\<close> of the wrapper call. A body
  that returns resolves \<open>p\<close>, a body that raises rejects it. A yielded awaitable is
  subscribed to; the continuation registered resumes the body with the fulfilment value or
  raises the rejection reason at the suspension point. A yielded plain value is turned
  into a promise first: \<open>Q.async\<close> does so itself, Bluebird hands the value to the yield
  handlers registered with \<open>addYieldHandler\<close> and raises a \<open>TypeError\<close> at the suspension
  point when none of them returns a promise. A body that calls a wrapped function gets
  the wrapper's promise (the call starts the nested body at once).
\<close>

fun promiseFromYieldHandler :: "yield_handler list \<Rightarrow> val \<Rightarrow> world \<Rightarrow> nat option \<times> world" where
  "promiseFromYieldHandler [] v w = (None, w)"
| "promiseFromYieldHandler (h # hs) v w =
     (let (y, w1) = run_handler h v w
      in case promise_addr y of
           Some q \<Rightarrow> (Some q, w1)
         | None \<Rightarrow> promiseFromYieldHandler hs v w1)"

primrec drive :: "variant \<Rightarrow> gen \<Rightarrow> nat \<Rightarrow> world \<Rightarrow> world" where
  "drive var (Return v) p w = resolve p v w"
| "drive var (Throw e) p w = reject p e w"
| "drive var (Yield v kn kt) p w =
     (case promise_addr v of
        Some q \<Rightarrow> promise_then q (Resume var kn kt p) w
      | None \<Rightarrow>
         (case var of
            Q_based \<Rightarrow>
              (let (q, w1) = new_cell Q (Some (Fulfilled v)) w
               in promise_then q (Resume var kn kt p) w1)
          | Bluebird_based \<Rightarrow>
              (case promiseFromYieldHandler (yieldHandlers w) v w of
                 (Some q, w1) \<Rightarrow> promise_then q (Resume var kn kt p) w1
               | (None, w1) \<Rightarrow>
                   drive var
                     (kt (TypeError ''A value was yielded that could not be treated as a promise''))
                     p w1)))"
| "drive var (Call_Promise_resolve v k) p w =
     (let (y, w1) = Promise_resolve v w in drive var (k y) p w1)"
| "drive var (Call_belay v k) p w =
     (let (y, w1) = belay v w in drive var (k y) p w1)"
| "drive var (Call_belayError e k) p w =
     (let (y, w1) = belayError e w in drive var (k y) p w1)"
| "drive var (Call_new_Promise_noop k) p w =
     (let (y, w1) = new_Promise (\<lambda>a w'. w') w in drive var (k y) p w1)"
| "drive var (Call_foo g k) p w =
     (case var of
        Bluebird_based \<Rightarrow>
          (let (r, w1) = new_cell Bluebird None w;
               w2 = drive var g r w1
           in drive var (k (Promise r)) p w2)
      | Q_based \<Rightarrow>
          (let (r, w1) = new_cell Q None w;
               w2 = drive var g r w1;
               (y, w3) = new_Promise (\<lambda>a. promise_then r (Forward a)) w2
           in drive var (k y) p w3))"

text \<open>
  One turn of the event loop runs the job at the head of the queue; \<open>run n\<close> runs at most
  \<open>n\<close> turns and stops when the queue is empty.
\<close>

fun run_job :: "job \<Rightarrow> world \<Rightarrow> world" where
  "run_job (Tick_resolve p v) w = resolve p v w"
| "run_job (Tick_reject p e) w = reject p e w"
| "run_job (React (Forward p) (Fulfilled v)) w = resolve p v w"
| "run_job (React (Forward p) (Rejected e)) w = reject p e w"
| "run_job (React (Resume var kn kt p) (Fulfilled v)) w = drive var (kn v) p w"
| "run_job (React (Resume var kn kt p) (Rejected e)) w = drive var (kt e) p w"

fun run :: "nat \<Rightarrow> world \<Rightarrow> world" where
  "run 0 w = w"
| "run (Suc n) w =
     (case queue w of
        [] \<Rightarrow> w
      | j # js \<Rightarrow> run n (run_job j (w\<lparr>queue := js\<rparr>)))"

definition Promise_coroutine :: "generatorFunction \<Rightarrow> val list \<Rightarrow> world \<Rightarrow> val \<times> world" where
  "Promise_coroutine generatorFunction args w =
     (let (p, w1) = new_cell Bluebird None w
      in (Promise p, drive Bluebird_based (generatorFunction args) p w1))"

definition Q_async :: "generatorFunction \<Rightarrow> val list \<Rightarrow> world \<Rightarrow> nat \<times> world" where
  "Q_async makeGenerator args w =
     (let (p, w1) = new_cell Q None w
      in (p, drive Q_based (makeGenerator args) p w1))"

section \<open>The adapter\<close>

text \<open>\<open>src/foo.js\<close>, line 74: the export is the host's \<open>Promise.coroutine\<close> itself.\<close>

definition foo :: "generatorFunction \<Rightarrow> val list \<Rightarrow> world \<Rightarrow> val \<times> world" where
  "foo = Promise_coroutine"

text \<open>
  The earlier version of the module (\<open>src/test/testFoo.js\<close>, lines 167 to 175): the
  wrapper calls \<open>Q.async\<close> on the generator function, applies the result to its arguments
  and builds a promise with the global constructor whose executor registers its own
  \<open>resolve\<close> and \<open>reject\<close> on the promise that \<open>Q.async\<close> returned.
\<close>

definition foo_Q :: "generatorFunction \<Rightarrow> val list \<Rightarrow> world \<Rightarrow> val \<times> world" where
  "foo_Q generator args w =
     (let (promise, w1) = Q_async generator args w
      in new_Promise (\<lambda>a. promise_then promise (Forward a)) w1)"

text \<open>The state of the promise a value refers to; a value that is no promise has none.\<close>

definition promise_state :: "world \<Rightarrow> val \<Rightarrow> outcome option" where
  "promise_state w y =
     (case promise_addr y of
        Some p \<Rightarrow> (if p < length (heap w) then state (heap w ! p) else None)
      | None \<Rightarrow> None)"

text \<open>
  \<open>after n r\<close>: the state, \<open>n\<close> turns of the event loop after a call that returned \<open>r\<close>
  (a value and the world the call left), of the promise the value refers to.
\<close>

definition after :: "nat \<Rightarrow> val \<times> world \<Rightarrow> outcome option" where
  "after n r = promise_state (run n (snd r)) (fst r)"

text \<open>
  \<open>done_at k r oc\<close>: after \<open>k\<close> turns the event loop is idle and the promise that the
  call \<open>r\<close> returned is settled with \<open>oc\<close>.
\<close>

definition done_at :: "nat \<Rightarrow> val \<times> world \<Rightarrow> outcome \<Rightarrow> bool" where
  "done_at k r oc \<longleftrightarrow>
     queue (run k (snd r)) = [] \<and> promise_state (run k (snd r)) (fst r) = Some oc"

section \<open>The generator bodies of src/test/testFoo.js\<close>

text \<open>
  The bodies the tests wrap, each with the value it checks returned instead: one yield of
  a plain value (lines 52 to 63), of \<open>Promise.resolve(v)\<close> (lines 65 to 76), of \<open>belay(v)\<close>
  (lines 78 to 89); a yield of \<open>belayError(e)\<close> inside \<open>try/catch\<close> (lines 91 to 99); the
  wrapped function \<open>a\<close> and a body that yields \<open>a(v)\<close> (lines 101 to 109). \<open>gen_rejected\<close>
  is the yield of \<open>belayError(e)\<close> outside any \<open>try/catch\<close>.
\<close>

definition gen_plain :: "val \<Rightarrow> gen" where
  "gen_plain v = Yield v Return Throw"

definition gen_immediate :: "val \<Rightarrow> gen" where
  "gen_immediate v = Call_Promise_resolve v (\<lambda>y. Yield y Return Throw)"

definition gen_async :: "val \<Rightarrow> gen" where
  "gen_async v = Call_belay v (\<lambda>y. Yield y Return Throw)"

definition gen_catch :: "val \<Rightarrow> (val \<Rightarrow> gen) \<Rightarrow> gen" where
  "gen_catch e handler =
     Call_belayError e (\<lambda>y. Yield y (\<lambda>x. Return (Str ''Expected thrown exception.'')) handler)"



definition initial :: world where
  "initial = \<lparr>heap = [], queue = [], Promise_global = Native, longStackTraces = False,
     yieldHandlers = []\<rparr>"

definition gen_rejected :: "val \<Rightarrow> gen" where
  "gen_rejected e = Call_belayError e (\<lambda>y. Yield y Return Throw)"

text \<open>
  A body that raises \<open>e\<close> itself, inside a \<open>try/catch\<close> with the given handler: control
  passes to the handler with \<open>e\<close>.
\<close>

definition gen_try_throw :: "val \<Rightarrow> (val \<Rightarrow> gen) \<Rightarrow> gen" where
  "gen_try_throw e handler = handler e"


section \<open>Bodies that suspend on plain values only\<close>

text \<open>
  \<open>plain_gen g\<close>: along the path the body takes, every suspension is on a plain value
  and the value returned is plain. Such a body is resumed with the value it yielded;
  \<open>result g\<close> is how it ends and \<open>yields g\<close> the number of its suspensions.
\<close>

primrec plain_gen :: "gen \<Rightarrow> bool" where
  "plain_gen (Return v) = (\<not> awaitable v)"
| "plain_gen (Throw e) = True"
| "plain_gen (Yield v kn kt) = (\<not> awaitable v \<and> plain_gen (kn v))"
| "plain_gen (Call_Promise_resolve v k) = False"
| "plain_gen (Call_belay v k) = False"
| "plain_gen (Call_belayError e k) = False"
| "plain_gen (Call_new_Promise_noop k) = False"
| "plain_gen (Call_foo g k) = False"

primrec result :: "gen \<Rightarrow> outcome" where
  "result (Return v) = Fulfilled v"
| "result (Throw e) = Rejected e"
| "result (Yield v kn kt) = result (kn v)"
| "result (Call_Promise_resolve v k) = Rejected Undefined"
| "result (Call_belay v k) = Rejected Undefined"
| "result (Call_belayError e k) = Rejected Undefined"
| "result (Call_new_Promise_noop k) = Rejected Undefined"
| "result (Call_foo g k) = Rejected Undefined"

primrec yields :: "gen \<Rightarrow> nat" where
  "yields (Return v) = 0"
| "yields (Throw e) = 0"
| "yields (Yield v kn kt) = Suc (yields (kn v))"
| "yields (Call_Promise_resolve v k) = 0"
| "yields (Call_belay v k) = 0"
| "yields (Call_belayError e k) = 0"
| "yields (Call_new_Promise_noop k) = 0"
| "yields (Call_foo g k) = 0"

definition ran_to :: "outcome \<Rightarrow> nat \<Rightarrow> world \<Rightarrow> world \<Rightarrow> bool" where
  "ran_to oc p w w' \<longleftrightarrow>
     length (heap w) \<le> length (heap w') \<and>
     state (heap w' ! p) = Some oc \<and>
     queue w' = map (\<lambda>r. React r oc) (waiting (heap w ! p)) \<and>
     (\<forall>i < length (heap w). i \<noteq> p \<longrightarrow> heap w' ! i = heap w ! i)"

section \<open>Invariants of the host\<close>

text \<open>
  The promise a continuation or a queued job will settle when it runs, and the values a
  promise may be fulfilled with (never an awaitable: resolving with one adopts its state).
\<close>

fun reaction_target :: "reaction \<Rightarrow> nat" where
  "reaction_target (Forward p) = p"
| "reaction_target (Resume var kn kt p) = p"

fun job_target :: "job \<Rightarrow> nat" where
  "job_target (Tick_resolve p v) = p"
| "job_target (Tick_reject p e) = p"
| "job_target (React r oc) = reaction_target r"

fun plain_outcome :: "outcome \<Rightarrow> bool" where
  "plain_outcome (Fulfilled v) = (\<not> awaitable v)"
| "plain_outcome (Rejected e) = True"

fun plain_state :: "outcome option \<Rightarrow> bool" where
  "plain_state None = True"
| "plain_state (Some oc) = plain_outcome oc"

definition preserved :: "(world \<Rightarrow> bool) \<Rightarrow> (nat \<Rightarrow> nat \<Rightarrow> bool) \<Rightarrow> bool" where
  "preserved P G \<longleftrightarrow>
     (\<forall>l s w. P w \<longrightarrow> plain_state s \<longrightarrow> P (snd (new_cell l s w))) \<and>
     (\<forall>p oc w. P w \<longrightarrow> G (length (heap w)) p \<longrightarrow> plain_outcome oc \<longrightarrow> P (settle p oc w)) \<and>
     (\<forall>x r w. P w \<longrightarrow> G (length (heap w)) (reaction_target r) \<longrightarrow> P (promise_then x r w)) \<and>
     (\<forall>j w. P w \<longrightarrow> G (length (heap w)) (job_target j) \<longrightarrow> P (nextTick j w)) \<and>
     (\<forall>w. P w \<longrightarrow> G (Suc (length (heap w))) (length (heap w))) \<and>
     (\<forall>n m p. G n p \<longrightarrow> n \<le> m \<longrightarrow> G m p)"

text \<open>
  A world is well formed when every queued job and every registered continuation targets
  a promise that exists, and no promise is fulfilled with an awaitable.
\<close>

definition wf_world :: "world \<Rightarrow> bool" where
  "wf_world w \<longleftrightarrow>
     list_all (\<lambda>j. job_target j < length (heap w)) (queue w) \<and>
     list_all (\<lambda>c. plain_state (state c) \<and>
                 list_all (\<lambda>r. reaction_target r < length (heap w)) (waiting c)) (heap w)"

text \<open>
  \<open>linked a q\<close>: promise \<open>a\<close> follows promise \<open>q\<close>. Either \<open>a\<close> is settled as \<open>q\<close> is, or
  \<open>a\<close> is pending and the only continuations and jobs that can settle it are the
  forwarding continuation registered on \<open>q\<close> (still waiting there, or queued with the
  outcome of \<open>q\<close>).
\<close>

definition jobs_ok :: "nat \<Rightarrow> nat \<Rightarrow> world \<Rightarrow> bool" where
  "jobs_ok a q w \<longleftrightarrow>
     (\<forall>j \<in> set (queue w). job_target j = a \<longrightarrow>
        (\<exists>oc. state (heap w ! q) = Some oc \<and> j = React (Forward a) oc))"

definition reactions_ok :: "nat \<Rightarrow> nat \<Rightarrow> world \<Rightarrow> bool" where
  "reactions_ok a q w \<longleftrightarrow>
     (\<forall>i < length (heap w). \<forall>r \<in> set (waiting (heap w ! i)).
        reaction_target r = a \<longrightarrow> i = q \<and> r = Forward a)"

definition forward_present :: "nat \<Rightarrow> nat \<Rightarrow> world \<Rightarrow> bool" where
  "forward_present a q w \<longleftrightarrow>
     (case state (heap w ! q) of
        None \<Rightarrow> Forward a \<in> set (waiting (heap w ! q))
      | Some oc \<Rightarrow> React (Forward a) oc \<in> set (queue w))"

definition linked :: "nat \<Rightarrow> nat \<Rightarrow> world \<Rightarrow> bool" where
  "linked a q w \<longleftrightarrow>
     a < length (heap w) \<and> q < length (heap w) \<and> a \<noteq> q \<and>
     (case state (heap w ! a) of
        Some oc \<Rightarrow> state (heap w ! q) = Some oc
      | None \<Rightarrow> jobs_ok a q w \<and> reactions_ok a q w \<and> forward_present a q w)"

section \<open>Promises whose outcome is determined\<close>

text \<open>
  A queued job or a registered continuation belongs to the promise it settles when it
  runs. \<open>job_result\<close> is the outcome a job gives its promise, where the job alone tells:
  a tick job settles with its value, a forwarding continuation passes on the outcome it
  is run with, and a continuation that resumes a body settles with the result of the
  body when what is left of the body suspends on plain values only (under Bluebird a
  yield handler is needed for that; \<open>hb\<close> says that one is registered). \<open>job_rank\<close> is
  the number of suspensions the resumed body still has.
\<close>

fun body_of :: "outcome \<Rightarrow> (val \<Rightarrow> gen) \<Rightarrow> (val \<Rightarrow> gen) \<Rightarrow> gen" where
  "body_of (Fulfilled v) kn kt = kn v"
| "body_of (Rejected e) kn kt = kt e"

fun job_result :: "bool \<Rightarrow> job \<Rightarrow> outcome option" where
  "job_result hb (Tick_resolve p v) = (if awaitable v then None else Some (Fulfilled v))"
| "job_result hb (Tick_reject p e) = Some (Rejected e)"
| "job_result hb (React (Forward p) oc) = (if plain_outcome oc then Some oc else None)"
| "job_result hb (React (Resume var kn kt p) oc) =
     (if plain_gen (body_of oc kn kt) \<and> (var = Bluebird_based \<longrightarrow> hb)
      then Some (result (body_of oc kn kt)) else None)"

fun job_rank :: "job \<Rightarrow> nat" where
  "job_rank (React (Resume var kn kt p) oc) = yields (body_of oc kn kt)"
| "job_rank j = 0"

text \<open>The jobs in the queue that belong to promise \<open>a\<close>, and the continuations waiting on
  promise \<open>i\<close> that do.\<close>

definition own_jobs :: "nat \<Rightarrow> world \<Rightarrow> job list" where
  "own_jobs a w = filter (\<lambda>j. job_target j = a) (queue w)"

definition own_reacts :: "nat \<Rightarrow> world \<Rightarrow> nat \<Rightarrow> reaction list" where
  "own_reacts a w i = filter (\<lambda>r. reaction_target r = a) (waiting (heap w ! i))"

text \<open>
  \<open>untouched a\<close>: promise \<open>a\<close> is pending and nothing belongs to it yet.
  \<open>queued a j\<close>: promise \<open>a\<close> is pending, \<open>j\<close> is the one job that belongs to it, and
  no continuation does. \<open>hooked a q c\<close>: promise \<open>a\<close> is pending and the one continuation
  that belongs to it, \<open>c\<close>, waits on promise \<open>q\<close>, or is the one job of \<open>a\<close>, queued
  with the outcome of \<open>q\<close>.
\<close>

definition untouched :: "nat \<Rightarrow> world \<Rightarrow> bool" where
  "untouched a w \<longleftrightarrow>
     a < length (heap w) \<and> state (heap w ! a) = None \<and> own_jobs a w = [] \<and>
     (\<forall>i < length (heap w). own_reacts a w i = [])"

definition queued :: "nat \<Rightarrow> job \<Rightarrow> world \<Rightarrow> bool" where
  "queued a j w \<longleftrightarrow>
     a < length (heap w) \<and> state (heap w ! a) = None \<and> own_jobs a w = [j] \<and>
     (\<forall>i < length (heap w). own_reacts a w i = [])"

definition hooked :: "nat \<Rightarrow> nat \<Rightarrow> reaction \<Rightarrow> world \<Rightarrow> bool" where
  "hooked a q c w \<longleftrightarrow>
     a < length (heap w) \<and> q < length (heap w) \<and> a \<noteq> q \<and> reaction_target c = a \<and>
     state (heap w ! a) = None \<and>
     (\<forall>i < length (heap w). i \<noteq> q \<longrightarrow> own_reacts a w i = []) \<and>
     (case state (heap w ! q) of
        None \<Rightarrow> own_jobs a w = [] \<and> own_reacts a w q = [c]
      | Some oc \<Rightarrow> own_jobs a w = [React c oc] \<and> own_reacts a w q = [])"

text \<open>
  \<open>tracked hb (a # qs) R\<close>: promise \<open>a\<close> is settled with \<open>R\<close>; or the one job that
  belongs to it gives it \<open>R\<close>; or it waits on the head of \<open>qs\<close>, a pending promise that
  is tracked in turn, with the outcome for which the continuation of \<open>a\<close> gives \<open>R\<close>.
  \<open>tracking\<close> adds that the promises of the chain exist. \<open>host_ok\<close>: the world is well
  formed, and a yield handler is registered when \<open>hb\<close> says so.
\<close>

fun tracked :: "bool \<Rightarrow> nat list \<Rightarrow> outcome \<Rightarrow> world \<Rightarrow> bool" where
  "tracked hb [] R w = False"
| "tracked hb (a # qs) R w =
     (a < length (heap w) \<and>
      (state (heap w ! a) = Some R \<or>
       (\<exists>j. queued a j w \<and> job_result hb j = Some R) \<or>
       (case qs of
          [] \<Rightarrow> False
        | q # qs' \<Rightarrow>
            state (heap w ! q) = None \<and>
            (\<exists>c oq. hooked a q c w \<and> job_result hb (React c oq) = Some R \<and>
               tracked hb qs oq w))))"

definition tracking :: "bool \<Rightarrow> nat list \<Rightarrow> outcome \<Rightarrow> world \<Rightarrow> bool" where
  "tracking hb as R w \<longleftrightarrow> tracked hb as R w \<and> (\<forall>q \<in> set as. q < length (heap w))"

definition host_ok :: "bool \<Rightarrow> world \<Rightarrow> bool" where
  "host_ok hb w \<longleftrightarrow> wf_world w \<and> (hb \<longrightarrow> yieldHandlers w \<noteq> [])"

section \<open>How a body ends\<close>

text \<open>
  \<open>ends var g w\<close>: the outcome with which the body \<open>g\<close> ends when it is run in the world
  \<open>w\<close>, if it ends before it suspends: the plain value it returns or the error it raises.
  The calls the body makes on the way are run as the driver runs them, and so is the
  \<open>TypeError\<close> Bluebird raises at the yield of a plain value that no yield handler accepts.
  A body that suspends has not ended, and a body that returns an awaitable leaves the
  outcome to that awaitable.
\<close>

primrec ends :: "variant \<Rightarrow> gen \<Rightarrow> world \<Rightarrow> outcome option" where
  "ends var (Return v) w = (if awaitable v then None else Some (Fulfilled v))"
| "ends var (Throw e) w = Some (Rejected e)"
| "ends var (Yield v kn kt) w =
     (case promise_addr v of
        Some q \<Rightarrow> None
      | None \<Rightarrow>
         (case var of
            Q_based \<Rightarrow> None
          | Bluebird_based \<Rightarrow>
              (case promiseFromYieldHandler (yieldHandlers w) v w of
                 (Some q, w1) \<Rightarrow> None
               | (None, w1) \<Rightarrow>
                   ends var
                     (kt (TypeError ''A value was yielded that could not be treated as a promise''))
                     w1)))"
| "ends var (Call_Promise_resolve v k) w =
     (let (y, w1) = Promise_resolve v w in ends var (k y) w1)"
| "ends var (Call_belay v k) w =
     (let (y, w1) = belay v w in ends var (k y) w1)"
| "ends var (Call_belayError e k) w =
     (let (y, w1) = belayError e w in ends var (k y) w1)"
| "ends var (Call_new_Promise_noop k) w =
     (let (y, w1) = new_Promise (\<lambda>a w'. w') w in ends var (k y) w1)"
| "ends var (Call_foo g k) w =
     (case var of
        Bluebird_based \<Rightarrow>
          (let (r, w1) = new_cell Bluebird None w;
               w2 = drive var g r w1
           in ends var (k (Promise r)) w2)
      | Q_based \<Rightarrow>
          (let (r, w1) = new_cell Q None w;
               w2 = drive var g r w1;
               (y, w3) = new_Promise (\<lambda>a. promise_then r (Forward a)) w2
           in ends var (k y) w3))"

text \<open>
  \<open>claims p w\<close>: the number of queued jobs and registered continuations that belong to
  promise \<open>p\<close>. \<open>owned p\<close>: at most one does, and none once \<open>p\<close> is settled. While the body
  of a wrapper call is suspended, its continuation is the one claim on the promise the
  driver settles for it.
\<close>

definition claims :: "nat \<Rightarrow> world \<Rightarrow> nat" where
  "claims p w =
     length (own_jobs p w) +
     sum_list (map (\<lambda>c. length (filter (\<lambda>r. reaction_target r = p) (waiting c))) (heap w))"

definition owned :: "nat \<Rightarrow> world \<Rightarrow> bool" where
  "owned p w \<longleftrightarrow>
     p < length (heap w) \<and> claims p w \<le> 1 \<and>
     (state (heap w ! p) \<noteq> None \<longrightarrow> claims p w = 0)"


section \<open>The event loop\<close>

text \<open>A call of a wrapped function inside a body is a call of the wrapper.\<close>

lemma drive_Call_foo:
  "drive Bluebird_based (Call_foo g k) p w =
     (let (y, w1) = foo (\<lambda>a. g) args w in drive Bluebird_based (k y) p w1)"
  "drive Q_based (Call_foo g k) p w =
     (let (y, w1) = foo_Q (\<lambda>a. g) args w in drive Q_based (k y) p w1)"
  by (simp_all add: foo_def Promise_coroutine_def foo_Q_def Q_async_def split_beta Let_def)



lemma run_idle: "queue w = [] \<Longrightarrow> run n w = w"
  by (cases n) simp_all

lemma run_add: "run (m + n) w = run n (run m w)"
proof (induction m arbitrary: w)
  case 0
  then show ?case by simp
next
  case (Suc m)
  show ?case
  proof (cases "queue w")
    case Nil
    then show ?thesis by (simp add: run_idle)
  next
    case (Cons j js)
    then show ?thesis using Suc.IH by simp
  qed
qed

lemma run_finished:
  assumes "queue (run k w) = []" and "k \<le> n"
  shows "run n w = run k w"
proof -
  have "run n w = run (k + (n - k)) w" using assms(2) by simp
  also have "\<dots> = run (n - k) (run k w)" by (rule run_add)
  also have "\<dots> = run k w" using assms(1) by (rule run_idle)
  finally show ?thesis .
qed

lemma done_at_after:
  assumes "done_at k r oc" and "k \<le> n"
  shows "after n r = Some oc"
proof -
  have "run n (snd r) = run k (snd r)"
    using assms by (intro run_finished) (simp_all add: done_at_def)
  then show ?thesis using assms(1) by (simp add: after_def done_at_def)
qed

lemma yieldHandlers_module_load: "\<exists>hs. yieldHandlers (module_load w) = Resolve_handler # hs"
proof (cases "yieldHandlers w")
  case Nil
  then show ?thesis by (simp add: module_load_def)
next
  case (Cons h hs)
  moreover have "h = Resolve_handler" by (cases h) simp
  ultimately show ?thesis by (simp add: module_load_def)
qed

lemma queue_module_load: "queue (module_load w) = queue w"
  by (simp add: module_load_def)

section \<open>Runs of the test bodies from an idle event loop\<close>

lemmas ops = new_cell_def settle_def promise_then_def reject_def resolve_def nextTick_def
  new_Promise_def Promise_resolve_def belay_def belayError_def yieldHandler_def
  Promise_coroutine_def Q_async_def foo_def foo_Q_def promise_state_def awaitable_def

lemma plain_B:
  assumes "queue w = []" and "yieldHandlers w = Resolve_handler # hs" and "promise_addr v = None"
  shows "done_at (Suc 0) (foo (\<lambda>a. gen_plain v) args w) (Fulfilled v)"
  using assms by (simp add: done_at_def ops gen_plain_def nth_append)

lemma plain_Q:
  assumes "queue w = []" and "promise_addr v = None"
  shows "done_at (Suc (Suc 0)) (foo_Q (\<lambda>a. gen_plain v) args w) (Fulfilled v)"
  using assms by (simp add: done_at_def ops gen_plain_def nth_append)

lemma immediate_B:
  assumes "queue w = []" and "yieldHandlers w = Resolve_handler # hs" and "promise_addr v = None"
  shows "done_at (Suc 0) (foo (\<lambda>a. gen_immediate v) args w) (Fulfilled v)"
  using assms by (simp add: done_at_def ops gen_immediate_def nth_append)

lemma immediate_Q:
  assumes "queue w = []" and "promise_addr v = None"
  shows "done_at (Suc (Suc 0)) (foo_Q (\<lambda>a. gen_immediate v) args w) (Fulfilled v)"
  using assms by (simp add: done_at_def ops gen_immediate_def nth_append)

lemma async_B:
  assumes "queue w = []" and "yieldHandlers w = Resolve_handler # hs" and "promise_addr v = None"
  shows "done_at (Suc (Suc 0)) (foo (\<lambda>a. gen_async v) args w) (Fulfilled v)"
  using assms by (simp add: done_at_def ops gen_async_def nth_append)

lemma async_Q:
  assumes "queue w = []" and "promise_addr v = None"
  shows "done_at (Suc (Suc (Suc 0))) (foo_Q (\<lambda>a. gen_async v) args w) (Fulfilled v)"
  using assms by (simp add: done_at_def ops gen_async_def nth_append)




lemma rejected_Q:
  assumes "queue w = []"
  shows "done_at (Suc (Suc (Suc 0))) (foo_Q (\<lambda>a. gen_rejected e) args w) (Rejected e)"
  using assms by (simp add: done_at_def ops gen_rejected_def nth_append)




lemma belay_states:
  assumes "queue w = []" and "promise_addr v = None"
  shows "after 0 (belay v w) = None" and "done_at (Suc 0) (belay v w) (Fulfilled v)"
  using assms by (simp_all add: after_def done_at_def ops nth_append)

lemma belayError_states:
  assumes "queue w = []"
  shows "after 0 (belayError e w) = None" and "done_at (Suc 0) (belayError e w) (Rejected e)"
  using assms by (simp_all add: after_def done_at_def ops nth_append)

lemma Promise_resolve_state:
  assumes "promise_addr v = None"
  shows "after 0 (Promise_resolve v w) = Some (Fulfilled v)"
  using assms by (simp add: after_def ops)


lemma throw_Q:
  assumes "queue w = []"
  shows "after 0 (foo_Q (\<lambda>a. Throw e) args w) = None"
    and "done_at (Suc 0) (foo_Q (\<lambda>a. Throw e) args w) (Rejected e)"
  using assms by (simp_all add: after_def done_at_def ops nth_append)



section \<open>Bodies that suspend on plain values: the run\<close>

lemma drive_plain_gen:
  assumes "plain_gen g" and "queue w = []" and "p < length (heap w)"
    and "state (heap w ! p) = None"
    and "var = Bluebird_based \<longrightarrow> (\<exists>hs. yieldHandlers w = Resolve_handler # hs)"
  shows "ran_to (result g) p w (run (yields g) (drive var g p w))"
  using assms
proof (induction g arbitrary: w)
  case (Return v)
  then show ?case
    by (simp add: ran_to_def resolve_def settle_def awaitable_def)
next
  case (Throw e)
  then show ?case
    by (simp add: ran_to_def reject_def settle_def)
next
  case (Yield v kn kt)
  define l where "l = (case var of Bluebird_based \<Rightarrow> Promise_global w | Q_based \<Rightarrow> Q)"
  define w1 where "w1 = w\<lparr>heap := heap w @ [\<lparr>state = Some (Fulfilled v), waiting = [], maker = l\<rparr>]\<rparr>"
  have v: "promise_addr v = None" and k: "plain_gen (kn v)"
    using Yield.prems(1) by (simp_all add: awaitable_def)
  have d: "drive var (Yield v kn kt) p w = w1\<lparr>queue := [React (Resume var kn kt p) (Fulfilled v)]\<rparr>"
  proof (cases var)
    case Bluebird_based
    then obtain hs where "yieldHandlers w = Resolve_handler # hs" using Yield.prems(5) by blast
    then show ?thesis using v Yield.prems(2) Bluebird_based
      by (simp add: w1_def l_def yieldHandler_def Promise_resolve_def awaitable_def new_cell_def promise_then_def)
  next
    case Q_based
    then show ?thesis using v Yield.prems(2)
      by (simp add: w1_def l_def new_cell_def promise_then_def)
  qed
  have y: "yields (Yield v kn kt) = Suc (yields (kn v))" by simp
  have q0: "w1\<lparr>queue := []\<rparr> = w1" using Yield.prems(2) by (cases w) (simp add: w1_def)
  have r: "run (yields (Yield v kn kt)) (drive var (Yield v kn kt) p w) = run (yields (kn v)) (drive var (kn v) p w1)"
    unfolding d y by (simp add: q0)
  have "ran_to (result (kn v)) p w1 (run (yields (kn v)) (drive var (kn v) p w1))"
    using k Yield.prems(2-5) by (intro Yield.IH(1)) (simp_all add: w1_def nth_append)
  then show ?case
    unfolding r using Yield.prems(3) by (simp add: ran_to_def w1_def nth_append)
qed simp_all

lemma plain_gen_result: "plain_gen g \<Longrightarrow> (case result g of Fulfilled v \<Rightarrow> promise_addr v = None | Rejected e \<Rightarrow> True)"
  by (induction g) (simp_all add: awaitable_def)

lemma run_forward:
  assumes "queue w = [React (Forward a) oc]" and "a < length (heap w)"
    and "state (heap w ! a) = None" and "waiting (heap w ! a) = []"
    and "case oc of Fulfilled v \<Rightarrow> promise_addr v = None | Rejected e \<Rightarrow> True"
  shows "queue (run (Suc 0) w) = [] \<and> state (heap (run (Suc 0) w) ! a) = Some oc \<and>
     length (heap (run (Suc 0) w)) = length (heap w)"
  using assms by (cases oc) (simp_all add: resolve_def reject_def settle_def)

lemma foo_plain_gen:
  assumes "plain_gen g" and "queue w = []" and "yieldHandlers w = Resolve_handler # hs"
  shows "done_at (yields g) (foo (\<lambda>a. g) args w) (result g)"
proof -
  define w1 where "w1 = w\<lparr>heap := heap w @ [\<lparr>state = None, waiting = [], maker = Bluebird\<rparr>]\<rparr>"
  have f: "foo (\<lambda>a. g) args w = (Promise (length (heap w)), drive Bluebird_based g (length (heap w)) w1)"
    by (simp add: foo_def Promise_coroutine_def new_cell_def w1_def)
  have "ran_to (result g) (length (heap w)) w1 (run (yields g) (drive Bluebird_based g (length (heap w)) w1))"
    using assms by (intro drive_plain_gen) (simp_all add: w1_def)
  then show ?thesis
    unfolding f by (simp add: done_at_def ran_to_def promise_state_def w1_def)
qed

lemma foo_Q_plain_gen:
  assumes "plain_gen g" and "queue w = []"
  shows "done_at (Suc (yields g)) (foo_Q (\<lambda>a. g) args w) (result g)"
proof (cases g)
  case (Return v)
  then show ?thesis using assms
    by (simp add: done_at_def ops nth_append)
next
  case (Throw e)
  then show ?thesis using assms
    by (simp add: done_at_def ops nth_append)
next
  case (Yield v kn kt)
  define q where "q = length (heap w)"
  define a where "a = Suc (Suc q)"
  define w3 where "w3 = w\<lparr>heap := heap w @
     [\<lparr>state = None, waiting = [Forward a], maker = Q\<rparr>,
      \<lparr>state = Some (Fulfilled v), waiting = [], maker = Q\<rparr>,
      \<lparr>state = None, waiting = [], maker = Promise_global w\<rparr>]\<rparr>"
  have v: "promise_addr v = None" and k: "plain_gen (kn v)"
    using assms(1) Yield by (simp_all add: awaitable_def)
  have f: "foo_Q (\<lambda>a. g) args w = (Promise a, w3\<lparr>queue := [React (Resume Q_based kn kt q) (Fulfilled v)]\<rparr>)"
    using v assms(2) Yield
    by (simp add: foo_Q_def Q_async_def new_cell_def new_Promise_def promise_then_def
        nth_append w3_def a_def q_def)
  have q0: "w3\<lparr>queue := []\<rparr> = w3" using assms(2) by (cases w) (simp add: w3_def)
  define w4 where "w4 = run (yields (kn v)) (drive Q_based (kn v) q w3)"
  have r: "ran_to (result (kn v)) q w3 w4"
    unfolding w4_def using k assms(2)
    by (intro drive_plain_gen) (simp_all add: w3_def q_def nth_append)
  have s: "run (Suc (yields (kn v))) (w3\<lparr>queue := [React (Resume Q_based kn kt q) (Fulfilled v)]\<rparr>) = w4"
    by (simp add: q0 w4_def)
  have "Suc (yields g) = Suc (yields (kn v)) + Suc 0" using Yield by simp
  then have t: "run (Suc (yields g)) (w3\<lparr>queue := [React (Resume Q_based kn kt q) (Fulfilled v)]\<rparr>) = run (Suc 0) w4"
    using s run_add by metis
  have w4: "queue w4 = [React (Forward a) (result (kn v))]" "a < length (heap w4)"
    "state (heap w4 ! a) = None" "waiting (heap w4 ! a) = []"
    using r by (simp_all add: ran_to_def w3_def q_def a_def nth_append)
  have "queue (run (Suc 0) w4) = [] \<and> state (heap (run (Suc 0) w4) ! a) = Some (result (kn v)) \<and>
     length (heap (run (Suc 0) w4)) = length (heap w4)"
    using w4 plain_gen_result [OF k] by (rule run_forward)
  then show ?thesis
    unfolding done_at_def f using t w4(2) Yield by (simp add: promise_state_def)
qed (use assms in simp_all)

lemma idle_queue_update: "queue w = [] \<Longrightarrow> w\<lparr>heap := H, queue := []\<rparr> = w\<lparr>heap := H\<rparr>"
  by (cases w) simp

lemma catch_gen_B:
  assumes q: "queue w = []" and hs: "yieldHandlers w = Resolve_handler # hs" and pg: "plain_gen (h e)"
  shows "done_at (Suc (Suc (yields (h e)))) (foo (\<lambda>a. gen_catch e h) args w) (result (h e))"
proof -
  define p where "p = length (heap w)"
  define w2 where "w2 = w\<lparr>heap := heap w @
     [\<lparr>state = None, waiting = [], maker = Bluebird\<rparr>,
      \<lparr>state = Some (Rejected e), waiting = [], maker = Promise_global w\<rparr>]\<rparr>"
  have f: "fst (foo (\<lambda>a. gen_catch e h) args w) = Promise p"
    by (simp add: ops gen_catch_def p_def)
  have r: "run (Suc (Suc (yields (h e)))) (snd (foo (\<lambda>a. gen_catch e h) args w))
      = run (yields (h e)) (drive Bluebird_based (h e) p w2)"
    using q by (simp add: ops gen_catch_def nth_append list_update_append idle_queue_update p_def w2_def)
  have "ran_to (result (h e)) p w2 (run (yields (h e)) (drive Bluebird_based (h e) p w2))"
    using pg q hs by (intro drive_plain_gen) (simp_all add: w2_def p_def nth_append)
  then show ?thesis
    unfolding done_at_def f r by (simp add: ran_to_def promise_state_def w2_def p_def nth_append)
qed

lemma catch_gen_Q:
  assumes q: "queue w = []" and pg: "plain_gen (h e)"
  shows "done_at (Suc (Suc (Suc (yields (h e))))) (foo_Q (\<lambda>a. gen_catch e h) args w) (result (h e))"
proof -
  define p where "p = length (heap w)"
  define a where "a = Suc (Suc p)"
  define w2 where "w2 = w\<lparr>heap := heap w @
     [\<lparr>state = None, waiting = [Forward a], maker = Q\<rparr>,
      \<lparr>state = Some (Rejected e), waiting = [], maker = Promise_global w\<rparr>,
      \<lparr>state = None, waiting = [], maker = Promise_global w\<rparr>]\<rparr>"
  have f: "fst (foo_Q (\<lambda>a. gen_catch e h) args w) = Promise a"
    by (simp add: ops gen_catch_def p_def a_def)
  define w4 where "w4 = run (yields (h e)) (drive Q_based (h e) p w2)"
  have r: "run (Suc (Suc (yields (h e)))) (snd (foo_Q (\<lambda>a. gen_catch e h) args w)) = w4"
    using q by (simp add: ops gen_catch_def nth_append list_update_append idle_queue_update p_def w2_def a_def w4_def)
  have rt: "ran_to (result (h e)) p w2 w4"
    unfolding w4_def using pg q by (intro drive_plain_gen) (simp_all add: w2_def p_def nth_append)
  have w4: "queue w4 = [React (Forward a) (result (h e))]" "a < length (heap w4)"
    "state (heap w4 ! a) = None" "waiting (heap w4 ! a) = []"
    using rt by (simp_all add: ran_to_def w2_def p_def a_def nth_append)
  have l: "queue (run (Suc 0) w4) = [] \<and> state (heap (run (Suc 0) w4) ! a) = Some (result (h e)) \<and>
     length (heap (run (Suc 0) w4)) = length (heap w4)"
    using w4 plain_gen_result [OF pg] by (rule run_forward)
  have "Suc (Suc (Suc (yields (h e)))) = Suc (Suc (yields (h e))) + Suc 0" by simp
  then have "run (Suc (Suc (Suc (yields (h e))))) (snd (foo_Q (\<lambda>a. gen_catch e h) args w))
      = run (Suc 0) w4"
    using r run_add by metis
  then show ?thesis
    unfolding done_at_def f using l w4(2) by (simp add: promise_state_def)
qed

section \<open>What every step of the host preserves\<close>

lemma preservedD:
  assumes "preserved P G"
  shows "P w \<Longrightarrow> plain_state s \<Longrightarrow> P (snd (new_cell l s w))"
    and "P w \<Longrightarrow> G (length (heap w)) p \<Longrightarrow> plain_outcome oc \<Longrightarrow> P (settle p oc w)"
    and "P w \<Longrightarrow> G (length (heap w)) (reaction_target r) \<Longrightarrow> P (promise_then x r w)"
    and "P w \<Longrightarrow> G (length (heap w)) (job_target j) \<Longrightarrow> P (nextTick j w)"
    and "P w \<Longrightarrow> G (Suc (length (heap w))) (length (heap w))"
    and "G n p \<Longrightarrow> n \<le> m \<Longrightarrow> G m p"
  using assms unfolding preserved_def by blast+

lemma length_new_cell [simp]: "length (heap (snd (new_cell l s w))) = Suc (length (heap w))"
  by (simp add: new_cell_def)
lemma fst_new_cell [simp]: "fst (new_cell l s w) = length (heap w)"
  by (simp add: new_cell_def)
lemma length_settle [simp]: "length (heap (settle p oc w)) = length (heap w)"
  by (simp add: settle_def)
lemma length_promise_then [simp]: "length (heap (promise_then x r w)) = length (heap w)"
  by (simp add: promise_then_def split: option.splits)
lemma length_nextTick [simp]: "length (heap (nextTick j w)) = length (heap w)"
  by (simp add: nextTick_def)
lemma length_reject [simp]: "length (heap (reject p e w)) = length (heap w)"
  by (simp add: reject_def)
lemma length_resolve [simp]: "length (heap (resolve p v w)) = length (heap w)"
  by (simp add: resolve_def split: option.splits)

lemma pres_reject: "preserved P G \<Longrightarrow> P w \<Longrightarrow> G (length (heap w)) p \<Longrightarrow> P (reject p e w)"
  by (simp add: preservedD(2) reject_def)

lemma pres_resolve: "preserved P G \<Longrightarrow> P w \<Longrightarrow> G (length (heap w)) p \<Longrightarrow> P (resolve p v w)"
  unfolding resolve_def
  by (auto simp: pres_reject preservedD(2,3) awaitable_def split: option.splits)

lemma pres_Promise_resolve:
  assumes "preserved P G" "P w"
  shows "P (snd (Promise_resolve v w)) \<and> length (heap w) \<le> length (heap (snd (Promise_resolve v w)))"
  using assms
  by (auto simp: Promise_resolve_def Let_def split_beta intro!: preservedD(1) [OF assms(1)])

lemma pres_promiseFromYieldHandler:
  assumes "preserved P G"
  shows "P w \<Longrightarrow> P (snd (promiseFromYieldHandler hs v w)) \<and>
     length (heap w) \<le> length (heap (snd (promiseFromYieldHandler hs v w)))"
proof (induction hs arbitrary: w)
  case Nil
  then show ?case by simp
next
  case (Cons h hs)
  obtain y w1 where r: "run_handler h v w = (y, w1)" by force
  have "P w1 \<and> length (heap w) \<le> length (heap w1)"
    using pres_Promise_resolve [OF assms Cons.prems, of v] r
    by (cases h) (simp add: yieldHandler_def)
  with Cons.IH [of w1] r show ?case
    by (auto split: option.splits)
qed

lemma pres_new_Promise:
  assumes "preserved P G" "P w"
    and ex: "\<And>w1. P w1 \<Longrightarrow> length (heap w1) = Suc (length (heap w)) \<Longrightarrow> P (ex (length (heap w)) w1)"
    and len: "\<And>w1. length (heap (ex (length (heap w)) w1)) = length (heap w1)"
  shows "P (snd (new_Promise ex w)) \<and> length (heap (snd (new_Promise ex w))) = Suc (length (heap w))
     \<and> fst (new_Promise ex w) = Promise (length (heap w))"
proof -
  have "P (snd (new_cell (Promise_global w) None w))"
    using assms(1,2) by (simp add: preservedD(1))
  then show ?thesis
    using ex len by (simp add: new_Promise_def new_cell_def)
qed

lemma pres_belay:
  assumes "preserved P G" "P w"
  shows "P (snd (belay v w)) \<and> length (heap (snd (belay v w))) = Suc (length (heap w))
     \<and> fst (belay v w) = Promise (length (heap w))"
  unfolding belay_def
proof (rule pres_new_Promise [OF assms])
  fix w1 assume "P w1" "length (heap w1) = Suc (length (heap w))"
  then show "P (nextTick (Tick_resolve (length (heap w)) v) w1)"
    using preservedD(5) [OF assms] by (intro preservedD(4) [OF assms(1)]) simp_all
qed simp

lemma pres_belayError:
  assumes "preserved P G" "P w"
  shows "P (snd (belayError v w)) \<and> length (heap (snd (belayError v w))) = Suc (length (heap w))
     \<and> fst (belayError v w) = Promise (length (heap w))"
  unfolding belayError_def
proof (rule pres_new_Promise [OF assms])
  fix w1 assume "P w1" "length (heap w1) = Suc (length (heap w))"
  then show "P (nextTick (Tick_reject (length (heap w)) v) w1)"
    using preservedD(5) [OF assms] by (intro preservedD(4) [OF assms(1)]) simp_all
qed simp

lemma pres_noop:
  assumes "preserved P G" "P w"
  shows "P (snd (new_Promise (\<lambda>a w'. w') w)) \<and> length (heap (snd (new_Promise (\<lambda>a w'. w') w))) = Suc (length (heap w))
     \<and> fst (new_Promise (\<lambda>a w'. w') w) = Promise (length (heap w))"
  by (rule pres_new_Promise [OF assms]) simp_all

lemma pres_forward:
  assumes "preserved P G" "P w"
  shows "P (snd (new_Promise (\<lambda>a. promise_then r (Forward a)) w)) \<and>
     length (heap (snd (new_Promise (\<lambda>a. promise_then r (Forward a)) w))) = Suc (length (heap w))
     \<and> fst (new_Promise (\<lambda>a. promise_then r (Forward a)) w) = Promise (length (heap w))"
proof (rule pres_new_Promise [OF assms])
  fix w1 assume "P w1" "length (heap w1) = Suc (length (heap w))"
  then show "P (promise_then r (Forward (length (heap w))) w1)"
    using preservedD(5) [OF assms] by (intro preservedD(3) [OF assms(1)]) simp_all
qed simp


lemma pres_drive:
  assumes pr: "preserved P G"
  shows "P w \<Longrightarrow> G (length (heap w)) p \<Longrightarrow>
     P (drive var g p w) \<and> length (heap w) \<le> length (heap (drive var g p w))"
proof (induction g arbitrary: p w)
  case (Return v)
  then show ?case by (simp add: pres_resolve [OF pr])
next
  case (Throw e)
  then show ?case by (simp add: pres_reject [OF pr])
next
  case (Yield v kn kt)
  show ?case
  proof (cases "promise_addr v")
    case (Some q)
    with Yield.prems show ?thesis by (simp add: preservedD(3) [OF pr])
  next
    case None
    show ?thesis
    proof (cases var)
      case Q_based
      have "plain_state (Some (Fulfilled v))" using None by (simp add: awaitable_def)
      then have "P (snd (new_cell Q (Some (Fulfilled v)) w))"
        using Yield.prems(1) by (rule preservedD(1) [OF pr, rotated])
      moreover have "G (Suc (length (heap w))) p"
        using Yield.prems(2) by (rule preservedD(6) [OF pr]) simp
      ultimately show ?thesis using None Q_based
        by (simp add: split_beta preservedD(3) [OF pr])
    next
      case Bluebird_based
      obtain r w1 where h: "promiseFromYieldHandler (yieldHandlers w) v w = (r, w1)" by force
      have w1: "P w1" "length (heap w) \<le> length (heap w1)"
        using pres_promiseFromYieldHandler [OF pr Yield.prems(1), of "yieldHandlers w" v] h by simp_all
      have g1: "G (length (heap w1)) p"
        using Yield.prems(2) w1(2) by (rule preservedD(6) [OF pr])
      show ?thesis
      proof (cases r)
        case None2: None
        have "P (drive var (kt (TypeError ''A value was yielded that could not be treated as a promise'')) p w1)
          \<and> length (heap w1) \<le> length (heap (drive var (kt (TypeError ''A value was yielded that could not be treated as a promise'')) p w1))"
          using w1(1) g1 by (intro Yield.IH(2)) simp_all
        then show ?thesis using None Bluebird_based h None2 w1(2) by simp
      next
        case (Some q)
        then show ?thesis using None Bluebird_based h w1 g1
          by (simp add: preservedD(3) [OF pr])
      qed
    qed
  qed
next
  case (Call_Promise_resolve v k)
  obtain y w1 where h: "Promise_resolve v w = (y, w1)" by force
  have w1: "P w1" "length (heap w) \<le> length (heap w1)"
    using pres_Promise_resolve [OF pr Call_Promise_resolve.prems(1), of v] h by simp_all
  have "G (length (heap w1)) p"
    using Call_Promise_resolve.prems(2) w1(2) by (rule preservedD(6) [OF pr])
  then have "P (drive var (k y) p w1) \<and> length (heap w1) \<le> length (heap (drive var (k y) p w1))"
    using w1(1) by (intro Call_Promise_resolve.IH) simp_all
  then show ?case using h w1(2) by simp
next
  case (Call_belay v k)
  obtain y w1 where h: "belay v w = (y, w1)" by force
  have w1: "P w1" "length (heap w1) = Suc (length (heap w))"
    using pres_belay [OF pr Call_belay.prems(1), of v] h by simp_all
  have "G (length (heap w1)) p"
    by (rule preservedD(6) [OF pr Call_belay.prems(2)]) (simp add: w1(2))
  then have "P (drive var (k y) p w1) \<and> length (heap w1) \<le> length (heap (drive var (k y) p w1))"
    using w1(1) by (intro Call_belay.IH) simp_all
  then show ?case using h w1(2) by simp
next
  case (Call_belayError v k)
  obtain y w1 where h: "belayError v w = (y, w1)" by force
  have w1: "P w1" "length (heap w1) = Suc (length (heap w))"
    using pres_belayError [OF pr Call_belayError.prems(1), of v] h by simp_all
  have "G (length (heap w1)) p"
    by (rule preservedD(6) [OF pr Call_belayError.prems(2)]) (simp add: w1(2))
  then have "P (drive var (k y) p w1) \<and> length (heap w1) \<le> length (heap (drive var (k y) p w1))"
    using w1(1) by (intro Call_belayError.IH) simp_all
  then show ?case using h w1(2) by simp
next
  case (Call_new_Promise_noop k)
  obtain y w1 where h: "new_Promise (\<lambda>a w'. w') w = (y, w1)" by force
  have w1: "P w1" "length (heap w1) = Suc (length (heap w))"
    using pres_noop [OF pr Call_new_Promise_noop.prems(1)] h by simp_all
  have "G (length (heap w1)) p"
    by (rule preservedD(6) [OF pr Call_new_Promise_noop.prems(2)]) (simp add: w1(2))
  then have "P (drive var (k y) p w1) \<and> length (heap w1) \<le> length (heap (drive var (k y) p w1))"
    using w1(1) by (intro Call_new_Promise_noop.IH) simp_all
  then show ?case using h w1(2) by simp
next
  case (Call_foo g k)
  define r where "r = length (heap w)"
  define l where "l = (case var of Bluebird_based \<Rightarrow> Bluebird | Q_based \<Rightarrow> Q)"
  define w1 where "w1 = snd (new_cell l None w)"
  define w2 where "w2 = drive var g r w1"
  have p1: "P w1" unfolding w1_def using Call_foo.prems(1) by (intro preservedD(1) [OF pr]) simp_all
  have l1: "length (heap w1) = Suc (length (heap w))" by (simp add: w1_def)
  have "G (length (heap w1)) r" unfolding l1 r_def by (rule preservedD(5) [OF pr Call_foo.prems(1)])
  then have p2: "P w2 \<and> length (heap w1) \<le> length (heap w2)"
    unfolding w2_def using p1 by (intro Call_foo.IH(1))
  have l2: "length (heap w) \<le> length (heap w2)" using p2 l1 by simp
  show ?case
  proof (cases var)
    case Bluebird_based
    have eq: "drive var (Call_foo g k) p w = drive var (k (Promise r)) p w2"
      by (simp add: Bluebird_based w2_def w1_def r_def l_def new_cell_def)
    have "G (length (heap w2)) p"
      using Call_foo.prems(2) l2 by (rule preservedD(6) [OF pr])
    then have "P (drive var (k (Promise r)) p w2) \<and> length (heap w2) \<le> length (heap (drive var (k (Promise r)) p w2))"
      using p2 by (intro Call_foo.IH(2)) simp_all
    then show ?thesis unfolding eq using l2 by simp
  next
    case Q_based
    obtain y w3 where h: "new_Promise (\<lambda>a. promise_then r (Forward a)) w2 = (y, w3)" by force
    have eq: "drive var (Call_foo g k) p w = drive var (k y) p w3"
      using h by (simp add: Q_based w2_def w1_def r_def l_def new_cell_def)
    have w3: "P w3" "length (heap w3) = Suc (length (heap w2))"
      using pres_forward [OF pr, of w2 r] p2 h by simp_all
    have l3: "length (heap w) \<le> length (heap w3)" using l2 w3(2) by simp
    have "G (length (heap w3)) p"
      using Call_foo.prems(2) l3 by (rule preservedD(6) [OF pr])
    then have "P (drive var (k y) p w3) \<and> length (heap w3) \<le> length (heap (drive var (k y) p w3))"
      using w3(1) by (intro Call_foo.IH(2)) simp_all
    then show ?thesis unfolding eq using l3 by simp
  qed
qed

lemma pres_run_job:
  assumes "preserved P G" and "P w" and "G (length (heap w)) (job_target j)"
  shows "P (run_job j w) \<and> length (heap w) \<le> length (heap (run_job j w))"
proof (cases j)
  case (Tick_resolve p v)
  then show ?thesis using assms by (simp add: pres_resolve)
next
  case (Tick_reject p e)
  then show ?thesis using assms by (simp add: pres_reject)
next
  case (React r oc)
  show ?thesis
  proof (cases r)
    case (Forward p)
    then show ?thesis using assms React by (cases oc) (simp_all add: pres_resolve pres_reject)
  next
    case (Resume var kn kt p)
    then show ?thesis using assms React by (cases oc) (simp_all add: pres_drive)
  qed
qed

lemma pres_run:
  assumes pr: "preserved P G"
    and pop: "\<And>w j js. P w \<Longrightarrow> queue w = j # js \<Longrightarrow>
       P (w\<lparr>queue := js\<rparr>) \<and> G (length (heap w)) (job_target j)"
  shows "P w \<Longrightarrow> P (run n w)"
proof (induction n arbitrary: w)
  case 0
  then show ?case by simp
next
  case (Suc n)
  show ?case
  proof (cases "queue w")
    case Nil
    then show ?thesis using Suc.prems by simp
  next
    case (Cons j js)
    have "P (w\<lparr>queue := js\<rparr>)" "G (length (heap (w\<lparr>queue := js\<rparr>))) (job_target j)"
      using pop [OF Suc.prems Cons] by simp_all
    then have "P (run_job j (w\<lparr>queue := js\<rparr>))"
      using pres_run_job [OF pr] by blast
    then show ?thesis using Cons Suc.IH by simp
  qed
qed

lemma pres_globals:
  "preserved (\<lambda>w. Promise_global w = a \<and> longStackTraces w = b \<and> yieldHandlers w = c) (\<lambda>n p. True)"
  by (simp add: preserved_def new_cell_def settle_def promise_then_def nextTick_def split: option.splits)

lemma pres_settled:
  "preserved (\<lambda>w. i < length (heap w) \<and> state (heap w ! i) = Some oc \<and> maker (heap w ! i) = l) (\<lambda>n p. True)"
  by (auto simp: preserved_def new_cell_def settle_def promise_then_def nextTick_def nth_append
      nth_list_update split: option.splits)

lemma pres_maker:
  "preserved (\<lambda>w. i < length (heap w) \<and> maker (heap w ! i) = l) (\<lambda>n p. True)"
  by (auto simp: preserved_def new_cell_def settle_def promise_then_def nextTick_def nth_append
      nth_list_update split: option.splits)

lemma pres_queue:
  "preserved (\<lambda>w. \<exists>ys. queue w = xs @ ys) (\<lambda>n p. True)"
  by (auto simp: preserved_def new_cell_def settle_def promise_then_def nextTick_def split: option.splits)

lemma wf_world_iff:
  "wf_world w \<longleftrightarrow>
     (\<forall>j \<in> set (queue w). job_target j < length (heap w)) \<and>
     (\<forall>i < length (heap w). plain_state (state (heap w ! i)) \<and>
        (\<forall>r \<in> set (waiting (heap w ! i)). reaction_target r < length (heap w)))"
  unfolding wf_world_def list_all_iff all_set_conv_all_nth [of "heap w"] by simp

lemma wf_new_cell:
  assumes "wf_world w" and "plain_state s"
  shows "wf_world (snd (new_cell l s w))"
  using assms unfolding wf_world_iff
  by (auto simp: new_cell_def nth_append less_Suc_eq)

lemma wf_settle:
  assumes "wf_world w" and "p < length (heap w)" and "plain_outcome oc"
  shows "wf_world (settle p oc w)"
proof (cases "state (heap w ! p) = None")
  case True
  then show ?thesis
    using assms unfolding wf_world_iff
    by (auto simp: settle_def nth_list_update)
next
  case False
  then show ?thesis using assms by (auto simp: settle_def)
qed

lemma wf_promise_then:
  assumes "wf_world w" and "reaction_target r < length (heap w)"
  shows "wf_world (promise_then x r w)"
  using assms unfolding wf_world_iff
  by (auto simp: promise_then_def nth_list_update split: option.splits)

lemma wf_nextTick:
  assumes "wf_world w" and "job_target j < length (heap w)"
  shows "wf_world (nextTick j w)"
  using assms unfolding wf_world_iff
  by (auto simp: nextTick_def)

lemma pres_wf: "preserved wf_world (\<lambda>n p. p < n)"
  unfolding preserved_def
  by (intro conjI allI impI wf_new_cell wf_settle wf_promise_then wf_nextTick) simp_all

lemma wf_pop:
  assumes "wf_world w" and "queue w = j # js"
  shows "wf_world (w\<lparr>queue := js\<rparr>) \<and> job_target j < length (heap (w\<lparr>queue := js\<rparr>))"
  using assms unfolding wf_world_iff by simp

lemma wf_run: "wf_world w \<Longrightarrow> wf_world (run n w)"
  using pres_wf
proof (rule pres_run)
  fix w j js assume "wf_world w" "queue w = j # js"
  then show "wf_world (w\<lparr>queue := js\<rparr>) \<and> job_target j < length (heap w)"
    using wf_pop by fastforce
qed

section \<open>A promise that follows another\<close>

lemma linked_new_cell:
  assumes "linked a q w"
  shows "linked a q (snd (new_cell l s w))"
  using assms unfolding linked_def jobs_ok_def reactions_ok_def forward_present_def
  by (auto simp: new_cell_def nth_append less_Suc_eq split: option.splits)

lemma linked_nextTick:
  assumes "linked a q w" and "job_target j \<noteq> a"
  shows "linked a q (nextTick j w)"
  using assms unfolding linked_def jobs_ok_def reactions_ok_def forward_present_def
  by (auto simp: nextTick_def split: option.splits)

lemma linked_promise_then:
  assumes "linked a q w" and "reaction_target r \<noteq> a"
  shows "linked a q (promise_then x r w)"
proof (cases "x < length (heap w)")
  case False
  then show ?thesis using assms by (simp add: promise_then_def)
next
  case True
  show ?thesis
  proof (cases "state (heap w ! x)")
    case (Some oc)
    then show ?thesis using assms True
      unfolding linked_def jobs_ok_def reactions_ok_def forward_present_def
      by (auto simp: promise_then_def split: option.splits)
  next
    case None
    then show ?thesis using assms True
      unfolding linked_def jobs_ok_def reactions_ok_def forward_present_def
      by (auto simp: promise_then_def nth_list_update split: option.splits)
  qed
qed

lemma linked_settle:
  assumes "linked a q w" and "p \<noteq> a"
  shows "linked a q (settle p oc w)"
proof (cases "p < length (heap w) \<and> state (heap w ! p) = None")
  case False
  then have "settle p oc w = w" by (auto simp: settle_def)
  then show ?thesis using assms(1) by simp
next
  case True
  define w' where "w' = settle p oc w"
  have h: "heap w' = (heap w)[p := (heap w ! p)\<lparr>state := Some oc, waiting := []\<rparr>]"
    and qu: "queue w' = queue w @ map (\<lambda>r. React r oc) (waiting (heap w ! p))"
    using True by (simp_all add: w'_def settle_def)
  have len: "length (heap w') = length (heap w)" by (simp add: h)
  have sa: "state (heap w' ! a) = state (heap w ! a)"
    using assms(2) True by (simp add: h)
  have la: "a < length (heap w')" "q < length (heap w')" "a \<noteq> q"
    using assms(1) by (simp_all add: h linked_def)
  have wt: "\<And>i. i < length (heap w) \<Longrightarrow> set (waiting (heap w' ! i)) \<subseteq> set (waiting (heap w ! i))"
  proof -
    fix i assume "i < length (heap w)"
    then show "set (waiting (heap w' ! i)) \<subseteq> set (waiting (heap w ! i))"
      by (cases "i = p") (simp_all add: h)
  qed
  show ?thesis
  proof (cases "state (heap w ! a)")
    case (Some oa)
    then have "state (heap w ! q) = Some oa" using assms(1) by (simp add: linked_def)
    then have "state (heap w' ! q) = Some oa"
      using True by (auto simp: h nth_list_update)
    then show ?thesis
      unfolding w'_def [symmetric] linked_def using la sa Some by simp
  next
    case None
    have j: "jobs_ok a q w" and r: "reactions_ok a q w" and e: "forward_present a q w"
      using assms(1) None by (simp_all add: linked_def)
    have r': "reactions_ok a q w'"
      unfolding reactions_ok_def len
    proof (intro allI impI ballI)
      fix i x assume "i < length (heap w)" "x \<in> set (waiting (heap w' ! i))" "reaction_target x = a"
      moreover from this have "x \<in> set (waiting (heap w ! i))" using wt by blast
      ultimately show "i = q \<and> x = Forward a" using r unfolding reactions_ok_def by blast
    qed
    have moved: "\<And>x. x \<in> set (waiting (heap w ! p)) \<Longrightarrow> reaction_target x = a \<Longrightarrow> p = q \<and> x = Forward a"
      using r True unfolding reactions_ok_def by blast
    show ?thesis
    proof (cases "p = q")
      case True2: True
      have sq: "state (heap w' ! q) = Some oc" using True True2 by (simp add: h)
      have qn: "state (heap w ! q) = None" using True True2 by simp
      have j': "jobs_ok a q w'"
        unfolding jobs_ok_def qu sq
      proof (intro ballI impI)
        fix x assume x: "x \<in> set (queue w @ map (\<lambda>r. React r oc) (waiting (heap w ! p)))" "job_target x = a"
        have "x \<notin> set (queue w)" using j x(2) qn unfolding jobs_ok_def by auto
        then obtain y where "y \<in> set (waiting (heap w ! p))" "x = React y oc" using x(1) by auto
        then show "\<exists>oc'. Some oc = Some oc' \<and> x = React (Forward a) oc'" using moved x(2) by auto
      qed
      have "Forward a \<in> set (waiting (heap w ! p))"
        using e qn True2 by (simp add: forward_present_def)
      then have e': "forward_present a q w'"
        by (simp add: forward_present_def sq qu)
      show ?thesis
        unfolding w'_def [symmetric] linked_def using la sa None j' r' e' by simp
    next
      case False
      have sq: "state (heap w' ! q) = state (heap w ! q)"
        using False by (simp add: h)
      have wq: "waiting (heap w' ! q) = waiting (heap w ! q)"
        using False by (simp add: h)
      have j': "jobs_ok a q w'"
        unfolding jobs_ok_def qu sq
      proof (intro ballI impI)
        fix x assume x: "x \<in> set (queue w @ map (\<lambda>r. React r oc) (waiting (heap w ! p)))" "job_target x = a"
        have "x \<in> set (queue w)"
        proof (rule ccontr)
          assume "x \<notin> set (queue w)"
          then obtain y where "y \<in> set (waiting (heap w ! p))" "x = React y oc" using x(1) by auto
          then show False using moved x(2) False by auto
        qed
        then show "\<exists>oc'. state (heap w ! q) = Some oc' \<and> x = React (Forward a) oc'"
          using j x(2) unfolding jobs_ok_def by blast
      qed
      have e': "forward_present a q w'"
        using e unfolding forward_present_def sq wq qu by (cases "state (heap w ! q)") simp_all
      show ?thesis
        unfolding w'_def [symmetric] linked_def using la sa None j' r' e' by simp
    qed
  qed
qed

lemma pres_linked: "preserved (\<lambda>w. wf_world w \<and> linked a q w) (\<lambda>n p. p < n \<and> p \<noteq> a)"
  unfolding preserved_def
proof (intro conjI allI impI)
  fix w assume "wf_world w \<and> linked a q w"
  then show "length (heap w) \<noteq> a" by (auto simp: linked_def)
qed (simp_all add: wf_new_cell wf_settle wf_promise_then wf_nextTick
      linked_new_cell linked_settle linked_promise_then linked_nextTick)

lemma settled_run_job:
  assumes "i < length (heap w)" and "state (heap w ! i) = Some oc"
  shows "i < length (heap (run_job j w)) \<and> state (heap (run_job j w) ! i) = Some oc"
proof -
  have "(i < length (heap w) \<and> state (heap w ! i) = Some oc \<and> maker (heap w ! i) = maker (heap w ! i))"
    using assms by simp
  from pres_run_job [OF pres_settled, where j = j, OF this] show ?thesis by simp
qed

lemma settled_run:
  assumes "i < length (heap w)" and "state (heap w ! i) = Some oc"
  shows "i < length (heap (run n w)) \<and> state (heap (run n w) ! i) = Some oc"
proof -
  let ?P = "\<lambda>w'. i < length (heap w') \<and> state (heap w' ! i) = Some oc \<and> maker (heap w' ! i) = maker (heap w ! i)"
  have "?P (run n w)"
    using pres_settled
  proof (rule pres_run)
    show "?P w" using assms by simp
  qed simp
  then show ?thesis by simp
qed

lemma linked_pop:
  assumes "linked a q w" and "queue w = j # js" and "job_target j \<noteq> a"
  shows "linked a q (w\<lparr>queue := js\<rparr>)"
proof -
  have "\<And>oc. React (Forward a) oc \<in> set (queue w) \<Longrightarrow> React (Forward a) oc \<in> set js"
    using assms(2,3) by auto
  then show ?thesis
    using assms(1,2) unfolding linked_def jobs_ok_def reactions_ok_def forward_present_def
    by (auto split: option.splits)
qed

lemma linked_step:
  assumes wf: "wf_world w" and li: "linked a q w" and qu: "queue w = j # js"
  shows "wf_world (run_job j (w\<lparr>queue := js\<rparr>)) \<and> linked a q (run_job j (w\<lparr>queue := js\<rparr>))"
proof -
  define w0 where "w0 = w\<lparr>queue := js\<rparr>"
  have wf0: "wf_world w0" and tj: "job_target j < length (heap w0)"
    using wf_pop [OF wf qu] by (simp_all add: w0_def)
  have wf1: "wf_world (run_job j w0)"
    using pres_run_job [OF pres_wf wf0 tj] by simp
  have aq: "a < length (heap w0)" "q < length (heap w0)" "a \<noteq> q"
    using li by (simp_all add: linked_def w0_def)
  have "linked a q (run_job j w0)"
  proof (cases "state (heap w ! a)")
    case (Some oa)
    then have "state (heap w0 ! a) = Some oa" "state (heap w0 ! q) = Some oa"
      using li by (simp_all add: linked_def w0_def)
    then have "a < length (heap (run_job j w0)) \<and> state (heap (run_job j w0) ! a) = Some oa"
      "q < length (heap (run_job j w0)) \<and> state (heap (run_job j w0) ! q) = Some oa"
      using aq settled_run_job by blast+
    then show ?thesis using aq(3) by (simp add: linked_def)
  next
    case None
    show ?thesis
    proof (cases "job_target j = a")
      case False
      have "linked a q w0" unfolding w0_def using li qu False by (rule linked_pop)
      then show ?thesis
        using pres_run_job [OF pres_linked [where a = a and q = q], where w = w0 and j = j] wf0 tj False by simp
    next
      case True
      have "jobs_ok a q w" using li None by (simp add: linked_def)
      then obtain oc where oc: "state (heap w ! q) = Some oc" "j = React (Forward a) oc"
        using qu True unfolding jobs_ok_def by auto
      have "plain_state (state (heap w ! q))"
        using wf aq(2) unfolding wf_world_iff w0_def by simp
      then have pl: "plain_outcome oc" using oc(1) by simp
      have s0: "state (heap w0 ! a) = None" "state (heap w0 ! q) = Some oc"
        using None oc(1) by (simp_all add: w0_def)
      have "run_job j w0 = settle a oc w0"
        using pl oc(2) by (cases oc) (simp_all add: resolve_def reject_def awaitable_def)
      then have "state (heap (run_job j w0) ! a) = Some oc" "state (heap (run_job j w0) ! q) = Some oc"
        "length (heap (run_job j w0)) = length (heap w0)"
        using s0 aq by (simp_all add: settle_def)
      then show ?thesis using aq by (simp add: linked_def)
    qed
  qed
  then show ?thesis using wf1 by (simp add: w0_def)
qed

lemma linked_run:
  assumes "wf_world w" and "linked a q w"
  shows "wf_world (run n w) \<and> linked a q (run n w)"
  using assms
proof (induction n arbitrary: w)
  case 0
  then show ?case by simp
next
  case (Suc n)
  show ?case
  proof (cases "queue w")
    case Nil
    then show ?thesis using Suc.prems by simp
  next
    case (Cons j js)
    then show ?thesis
      using Suc.IH linked_step [OF Suc.prems Cons] by simp
  qed
qed

lemma globals_drive:
  "Promise_global (drive var g p w) = Promise_global w \<and>
   longStackTraces (drive var g p w) = longStackTraces w \<and>
   yieldHandlers (drive var g p w) = yieldHandlers w"
  using pres_drive [OF pres_globals [of "Promise_global w" "longStackTraces w" "yieldHandlers w"],
      where w = w and p = p and var = var and g = g] by simp

lemma maker_drive:
  assumes "i < length (heap w)"
  shows "maker (heap (drive var g p w) ! i) = maker (heap w ! i)"
  using pres_drive [OF pres_maker [of i "maker (heap w ! i)"],
      where w = w and p = p and var = var and g = g] assms by simp

lemma Q_async_facts:
  assumes "wf_world w"
  shows "fst (Q_async g args w) = length (heap w)"
    and "wf_world (snd (Q_async g args w))"
    and "length (heap w) < length (heap (snd (Q_async g args w)))"
    and "maker (heap (snd (Q_async g args w)) ! length (heap w)) = Q"
    and "Promise_global (snd (Q_async g args w)) = Promise_global w"
proof -
  define w1 where "w1 = snd (new_cell Q None w)"
  have e: "Q_async g args w = (length (heap w), drive Q_based (g args) (length (heap w)) w1)"
    by (simp add: Q_async_def w1_def new_cell_def)
  have wf1: "wf_world w1" unfolding w1_def using assms by (intro wf_new_cell) simp_all
  have l1: "length (heap w1) = Suc (length (heap w))" by (simp add: w1_def)
  have d: "wf_world (drive Q_based (g args) (length (heap w)) w1) \<and>
      length (heap w1) \<le> length (heap (drive Q_based (g args) (length (heap w)) w1))"
    using wf1 l1 by (intro pres_drive [OF pres_wf]) simp_all
  show "fst (Q_async g args w) = length (heap w)" by (simp add: e)
  show "wf_world (snd (Q_async g args w))" using d by (simp add: e)
  show "length (heap w) < length (heap (snd (Q_async g args w)))" using d l1 by (simp add: e)
  have "maker (heap w1 ! length (heap w)) = Q" by (simp add: w1_def new_cell_def)
  then show "maker (heap (snd (Q_async g args w)) ! length (heap w)) = Q"
    using maker_drive [of "length (heap w)" w1] l1 by (simp add: e)
  show "Promise_global (snd (Q_async g args w)) = Promise_global w"
    by (simp add: e globals_drive) (simp add: w1_def new_cell_def)
qed

lemma forward_linked:
  assumes wf: "wf_world w" and q: "q < length (heap w)"
  defines "a \<equiv> length (heap w)"
  defines "w' \<equiv> snd (new_Promise (\<lambda>a. promise_then q (Forward a)) w)"
  shows "fst (new_Promise (\<lambda>a. promise_then q (Forward a)) w) = Promise a"
    and "wf_world w'" and "linked a q w'"
    and "length (heap w') = Suc a"
    and "maker (heap w' ! a) = Promise_global w" and "maker (heap w' ! q) = maker (heap w ! q)"
proof -
  define w1 where "w1 = w\<lparr>heap := heap w @ [\<lparr>state = None, waiting = [], maker = Promise_global w\<rparr>]\<rparr>"
  have e: "new_Promise (\<lambda>a. promise_then q (Forward a)) w = (Promise a, promise_then q (Forward a) w1)"
    by (simp add: new_Promise_def new_cell_def w1_def a_def)
  have w': "w' = promise_then q (Forward a) w1" by (simp add: w'_def e)
  have w1: "w1 = snd (new_cell (Promise_global w) None w)" by (simp add: w1_def new_cell_def)
  have wf1: "wf_world w1" unfolding w1 using wf by (intro wf_new_cell) simp_all
  show "fst (new_Promise (\<lambda>a. promise_then q (Forward a)) w) = Promise a" by (simp add: e)
  show "wf_world w'" unfolding w' using wf1 by (intro wf_promise_then) (simp_all add: w1_def a_def)
  show "length (heap w') = Suc a" by (simp add: w' w1_def a_def)
  have nj: "\<forall>j \<in> set (queue w). job_target j \<noteq> a"
    and nr: "\<forall>i < length (heap w). \<forall>r \<in> set (waiting (heap w ! i)). reaction_target r \<noteq> a"
    using wf unfolding wf_world_iff a_def by fastforce+
  show "maker (heap w' ! a) = Promise_global w" "maker (heap w' ! q) = maker (heap w ! q)"
    using q by (auto simp: w' w1_def a_def promise_then_def nth_append nth_list_update split: option.splits)
  show "linked a q w'"
  proof (cases "state (heap w ! q)")
    case None
    then have "w' = w\<lparr>heap := (heap w @ [\<lparr>state = None, waiting = [], maker = Promise_global w\<rparr>])
        [q := (heap w ! q)\<lparr>waiting := waiting (heap w ! q) @ [Forward a]\<rparr>]\<rparr>"
      using q by (simp add: w' w1_def promise_then_def nth_append)
    then show ?thesis
      using q None nj nr unfolding linked_def jobs_ok_def reactions_ok_def forward_present_def
      by (auto simp: a_def nth_append nth_list_update less_Suc_eq)
  next
    case (Some oc)
    then have "w' = w\<lparr>heap := heap w @ [\<lparr>state = None, waiting = [], maker = Promise_global w\<rparr>],
        queue := queue w @ [React (Forward a) oc]\<rparr>"
      using q by (simp add: w' w1_def promise_then_def nth_append)
    then show ?thesis
      using q Some nj nr unfolding linked_def jobs_ok_def reactions_ok_def forward_present_def
      by (auto simp: a_def nth_append less_Suc_eq)
  qed
qed

lemma foo_Q_facts:
  fixes g :: generatorFunction and args :: "val list" and w :: world
  assumes "wf_world w"
  defines "q \<equiv> length (heap w)"
  defines "a \<equiv> length (heap (snd (Q_async g args w)))"
  defines "w' \<equiv> snd (foo_Q g args w)"
  shows "fst (foo_Q g args w) = Promise a" and "q < a" and "a < length (heap w')"
    and "wf_world w'" and "linked a q w'"
    and "maker (heap w' ! a) = Promise_global w" and "maker (heap w' ! q) = Q"
proof -
  define w2 where "w2 = snd (Q_async g args w)"
  have e: "foo_Q g args w = new_Promise (\<lambda>a. promise_then q (Forward a)) w2"
    using Q_async_facts(1) [OF assms(1), of g args]
    by (simp add: foo_Q_def split_beta w2_def q_def)
  note f = Q_async_facts [OF assms(1), of g args, folded w2_def q_def]
  note l = forward_linked [OF f(2,3), folded a_def [folded w2_def]]
  show "fst (foo_Q g args w) = Promise a" using l(1) by (simp add: e)
  show "q < a" using f(3) by (simp add: a_def w2_def)
  show "a < length (heap w')" using l(4) by (simp add: w'_def e)
  show "wf_world w'" using l(2) by (simp add: w'_def e)
  show "linked a q w'" using l(3) by (simp add: w'_def e)
  show "maker (heap w' ! a) = Promise_global w" using l(5) f(5) by (simp add: w'_def e)
  show "maker (heap w' ! q) = Q" using l(6) f(4) by (simp add: w'_def e)
qed

lemma queue_run_job: "\<exists>ys. queue (run_job j w) = queue w @ ys"
  using pres_run_job [OF pres_queue [of "queue w"], where w = w and j = j] by simp

lemma linked_forward_job:
  assumes wf: "wf_world w" and li: "linked a q w" and sq: "state (heap w ! q) = Some oc"
    and qu: "queue w = React (Forward a) oc # js"
  shows "state (heap (run_job (React (Forward a) oc) (w\<lparr>queue := js\<rparr>)) ! a) = Some oc"
proof -
  define w0 where "w0 = w\<lparr>queue := js\<rparr>"
  have aq: "a < length (heap w0)" "q < length (heap w0)"
    using li by (simp_all add: linked_def w0_def)
  show ?thesis
  proof (cases "state (heap w ! a)")
    case (Some oa)
    then have "oa = oc" using li sq by (simp add: linked_def)
    then have "state (heap w0 ! a) = Some oc" using Some by (simp add: w0_def)
    then show ?thesis using settled_run_job [OF aq(1)] by (simp add: w0_def)
  next
    case None
    have "plain_state (state (heap w ! q))"
      using wf aq(2) unfolding wf_world_iff w0_def by simp
    then have pl: "plain_outcome oc" using sq by simp
    have "run_job (React (Forward a) oc) w0 = settle a oc w0"
      using pl by (cases oc) (simp_all add: resolve_def reject_def awaitable_def)
    moreover have "state (heap w0 ! a) = None" using None by (simp add: w0_def)
    ultimately show ?thesis using aq(1) by (simp add: settle_def w0_def)
  qed
qed

lemma linked_progress:
  assumes "wf_world w" and "linked a q w" and "state (heap w ! q) = Some oc"
    and "i < length (queue w)" and "queue w ! i = React (Forward a) oc"
  shows "state (heap (run (Suc i) w) ! a) = Some oc"
  using assms
proof (induction i arbitrary: w)
  case 0
  then obtain js where "queue w = React (Forward a) oc # js"
    by (cases "queue w") simp_all
  then show ?case
    using linked_forward_job [OF "0.prems"(1-3)] by simp
next
  case (Suc i)
  then obtain j js where qu: "queue w = j # js" by (cases "queue w") simp_all
  define w1 where "w1 = run_job j (w\<lparr>queue := js\<rparr>)"
  have r: "run (Suc (Suc i)) w = run (Suc i) w1" using qu by (simp add: w1_def)
  have 1: "wf_world w1" "linked a q w1"
    using linked_step [OF Suc.prems(1,2) qu] by (simp_all add: w1_def)
  have "q < length (heap (w\<lparr>queue := js\<rparr>))" "state (heap (w\<lparr>queue := js\<rparr>) ! q) = Some oc"
    using Suc.prems(2,3) by (simp_all add: linked_def)
  then have 2: "state (heap w1 ! q) = Some oc"
    unfolding w1_def using settled_run_job by blast
  obtain ys where "queue w1 = js @ ys"
    using queue_run_job [of j "w\<lparr>queue := js\<rparr>"] by (auto simp: w1_def)
  then have 3: "i < length (queue w1)" "queue w1 ! i = React (Forward a) oc"
    using Suc.prems(4,5) qu by (simp_all add: nth_append)
  show ?case unfolding r using 1 2 3 by (rule Suc.IH)
qed

lemma linked_settles:
  assumes wf: "wf_world w" and li: "linked a q w" and sq: "state (heap w ! q) = Some oc"
  shows "\<exists>k. \<forall>m\<ge>k. a < length (heap (run m w)) \<and> state (heap (run m w) ! a) = Some oc"
proof -
  have a: "a < length (heap w)" using li by (simp add: linked_def)
  have "\<exists>k. state (heap (run k w) ! a) = Some oc"
  proof (cases "state (heap w ! a)")
    case (Some oa)
    then have "state (heap (run 0 w) ! a) = Some oc" using li sq by (simp add: linked_def)
    then show ?thesis by blast
  next
    case None
    then have "React (Forward a) oc \<in> set (queue w)"
      using li sq by (simp add: linked_def forward_present_def)
    then obtain i where "i < length (queue w)" "queue w ! i = React (Forward a) oc"
      by (auto simp: in_set_conv_nth)
    then show ?thesis using linked_progress [OF wf li sq] by blast
  qed
  then obtain k where k: "state (heap (run k w) ! a) = Some oc" by blast
  have ak: "a < length (heap (run k w))"
    using linked_run [OF wf li, of k] by (simp add: linked_def)
  have "\<forall>m\<ge>k. a < length (heap (run m w)) \<and> state (heap (run m w) ! a) = Some oc"
  proof (intro allI impI)
    fix m assume "k \<le> m"
    then have "run m w = run (m - k) (run k w)" using run_add [of k "m - k" w] by simp
    then show "a < length (heap (run m w)) \<and> state (heap (run m w) ! a) = Some oc"
      using settled_run [OF ak k] by simp
  qed
  then show ?thesis by blast
qed

section \<open>The wrappers as a whole\<close>

lemma globals_run:
  "Promise_global (run n w) = Promise_global w \<and>
   longStackTraces (run n w) = longStackTraces w \<and>
   yieldHandlers (run n w) = yieldHandlers w"
proof -
  let ?P = "\<lambda>w'. Promise_global w' = Promise_global w \<and> longStackTraces w' = longStackTraces w \<and>
     yieldHandlers w' = yieldHandlers w"
  have "?P (run n w)"
    using pres_globals
  proof (rule pres_run)
    show "?P w" by simp
  qed simp
  then show ?thesis .
qed

lemma foo_facts:
  "fst (foo g args w) = Promise (length (heap w))"
  "length (heap w) < length (heap (snd (foo g args w)))"
  "Promise_global (snd (foo g args w)) = Promise_global w"
  "longStackTraces (snd (foo g args w)) = longStackTraces w"
  "yieldHandlers (snd (foo g args w)) = yieldHandlers w"
proof -
  define w1 where "w1 = snd (new_cell Bluebird None w)"
  have e: "foo g args w = (Promise (length (heap w)), drive Bluebird_based (g args) (length (heap w)) w1)"
    by (simp add: foo_def Promise_coroutine_def w1_def new_cell_def)
  have "length (heap w1) \<le> length (heap (drive Bluebird_based (g args) (length (heap w)) w1))"
    using pres_drive [OF pres_globals [of "Promise_global w1" "longStackTraces w1" "yieldHandlers w1"],
      where w = w1 and p = "length (heap w)" and var = Bluebird_based and g = "g args"] by simp
  then show "length (heap w) < length (heap (snd (foo g args w)))" by (simp add: e w1_def)
  show "fst (foo g args w) = Promise (length (heap w))" by (simp add: e)
  show "Promise_global (snd (foo g args w)) = Promise_global w"
    "longStackTraces (snd (foo g args w)) = longStackTraces w"
    "yieldHandlers (snd (foo g args w)) = yieldHandlers w"
    by (simp_all add: e globals_drive) (simp_all add: w1_def new_cell_def)
qed

lemma foo_Q_shape:
  "\<exists>a. fst (foo_Q g args w) = Promise a \<and> length (heap w) \<le> a \<and>
       a < length (heap (snd (foo_Q g args w)))"
  "Promise_global (snd (foo_Q g args w)) = Promise_global w"
  "longStackTraces (snd (foo_Q g args w)) = longStackTraces w"
  "yieldHandlers (snd (foo_Q g args w)) = yieldHandlers w"
proof -
  define w1 where "w1 = snd (new_cell Q None w)"
  define w2 where "w2 = drive Q_based (g args) (length (heap w)) w1"
  define w3 where "w3 = snd (new_cell (Promise_global w2) None w2)"
  have e: "foo_Q g args w = (Promise (length (heap w2)), promise_then (length (heap w)) (Forward (length (heap w2))) w3)"
    by (simp add: foo_Q_def Q_async_def new_Promise_def w1_def w2_def w3_def new_cell_def)
  have "length (heap w1) \<le> length (heap w2)"
    unfolding w2_def
    using pres_drive [OF pres_globals [of "Promise_global w1" "longStackTraces w1" "yieldHandlers w1"],
      where w = w1 and p = "length (heap w)" and var = Q_based and g = "g args"] by simp
  then have "length (heap w) \<le> length (heap w2)" by (simp add: w1_def)
  then show "\<exists>a. fst (foo_Q g args w) = Promise a \<and> length (heap w) \<le> a \<and>
       a < length (heap (snd (foo_Q g args w)))"
    by (simp add: e w3_def)
  have g3: "Promise_global w3 = Promise_global w" "longStackTraces w3 = longStackTraces w"
    "yieldHandlers w3 = yieldHandlers w"
    by (simp_all add: w3_def w2_def new_cell_def globals_drive) (simp_all add: w1_def new_cell_def)
  show "Promise_global (snd (foo_Q g args w)) = Promise_global w"
    "longStackTraces (snd (foo_Q g args w)) = longStackTraces w"
    "yieldHandlers (snd (foo_Q g args w)) = yieldHandlers w"
    using g3 by (simp_all add: e promise_then_def split: option.splits)
qed


section \<open>Tracked promises settle\<close>

text \<open>
  Every turn of the event loop keeps a tracked promise tracked, whatever job it runs; the
  one job of a promise reaches the head of the queue, and running it settles the promise
  or leaves a job for a body with fewer suspensions to go. So a tracked promise is
  settled with its outcome from some turn on. The calls of the test bodies leave the
  wrapper promise tracked, in every well-formed world.
\<close>

lemma filter_React:
  "filter (\<lambda>j. job_target j = a) (map (\<lambda>r. React r oc) rs)
     = map (\<lambda>r. React r oc) (filter (\<lambda>r. reaction_target r = a) rs)"
  by (induction rs) simp_all

lemma queued_new_cell:
  assumes "queued a j w"
  shows "queued a j (snd (new_cell l s w))"
  using assms unfolding queued_def own_jobs_def own_reacts_def
  by (auto simp: new_cell_def nth_append less_Suc_eq)

lemma queued_nextTick:
  assumes "queued a j w" and "job_target j' \<noteq> a"
  shows "queued a j (nextTick j' w)"
  using assms unfolding queued_def own_jobs_def own_reacts_def
  by (auto simp: nextTick_def)

lemma queued_promise_then:
  assumes "queued a j w" and "reaction_target r \<noteq> a"
  shows "queued a j (promise_then x r w)"
proof (cases "x < length (heap w)")
  case False
  then show ?thesis using assms by (simp add: promise_then_def)
next
  case True
  show ?thesis
  proof (cases "state (heap w ! x)")
    case (Some oc)
    then show ?thesis using assms True
      unfolding queued_def own_jobs_def own_reacts_def
      by (auto simp: promise_then_def)
  next
    case None
    then show ?thesis using assms True
      unfolding queued_def own_jobs_def own_reacts_def
      by (auto simp: promise_then_def nth_list_update)
  qed
qed

lemma queued_settle:
  assumes "queued a j w" and "p \<noteq> a"
  shows "queued a j (settle p oc w)"
proof (cases "p < length (heap w) \<and> state (heap w ! p) = None")
  case False
  then have "settle p oc w = w" by (auto simp: settle_def)
  then show ?thesis using assms(1) by simp
next
  case True
  have "own_reacts a w p = []" using assms(1) True by (simp add: queued_def)
  then show ?thesis
    using assms True unfolding queued_def own_jobs_def own_reacts_def
    by (auto simp: settle_def nth_list_update filter_React)
qed

lemma pres_queued: "preserved (queued a j) (\<lambda>n p. p < n \<and> p \<noteq> a)"
  unfolding preserved_def
proof (intro conjI allI impI)
  fix w assume "queued a j w"
  then show "length (heap w) \<noteq> a"
    by (auto simp: queued_def)
qed (simp_all add: queued_new_cell queued_settle queued_promise_then queued_nextTick)

lemma hooked_new_cell:
  assumes "hooked a q c w"
  shows "hooked a q c (snd (new_cell l s w))"
  using assms unfolding hooked_def own_jobs_def own_reacts_def
  by (auto simp: new_cell_def nth_append less_Suc_eq split: option.splits)

lemma hooked_nextTick:
  assumes "hooked a q c w" and "job_target j' \<noteq> a"
  shows "hooked a q c (nextTick j' w)"
  using assms unfolding hooked_def own_jobs_def own_reacts_def
  by (auto simp: nextTick_def split: option.splits)

lemma hooked_promise_then:
  assumes "hooked a q c w" and "reaction_target r \<noteq> a"
  shows "hooked a q c (promise_then x r w)"
proof (cases "x < length (heap w)")
  case False
  then show ?thesis using assms by (simp add: promise_then_def)
next
  case True
  show ?thesis
  proof (cases "state (heap w ! x)")
    case (Some oc)
    then show ?thesis using assms True
      unfolding hooked_def own_jobs_def own_reacts_def
      by (auto simp: promise_then_def split: option.splits)
  next
    case None
    then show ?thesis using assms True
      unfolding hooked_def own_jobs_def own_reacts_def
      by (auto simp: promise_then_def nth_list_update split: option.splits)
  qed
qed

lemma hooked_settle:
  assumes "hooked a q c w" and "p \<noteq> a"
  shows "hooked a q c (settle p oc w)"
proof (cases "p < length (heap w) \<and> state (heap w ! p) = None")
  case False
  then have "settle p oc w = w" by (auto simp: settle_def)
  then show ?thesis using assms(1) by simp
next
  case True
  show ?thesis
  proof (cases "p = q")
    case True2: True
    then have "own_jobs a w = []" "own_reacts a w q = [c]"
      using assms(1) True by (simp_all add: hooked_def)
    then show ?thesis
      using assms True True2 unfolding hooked_def own_jobs_def own_reacts_def
      by (auto simp: settle_def nth_list_update filter_React)
  next
    case False
    then have "own_reacts a w p = []" using assms(1) True by (simp add: hooked_def)
    then show ?thesis
      using assms True False unfolding hooked_def own_jobs_def own_reacts_def
      by (auto simp: settle_def nth_list_update filter_React split: option.splits)
  qed
qed

lemma pres_hooked: "preserved (hooked a q c) (\<lambda>n p. p < n \<and> p \<noteq> a)"
  unfolding preserved_def
proof (intro conjI allI impI)
  fix w assume "hooked a q c w"
  then show "length (heap w) \<noteq> a"
    by (auto simp: hooked_def)
qed (simp_all add: hooked_new_cell hooked_settle hooked_promise_then hooked_nextTick)

lemma run_job_Resume:
  "run_job (React (Resume var kn kt p) oc) w = drive var (body_of oc kn kt) p w"
  by (cases oc) simp_all

lemma drive_plain_yield:
  assumes "promise_addr v = None" and "var = Bluebird_based \<longrightarrow> yieldHandlers w \<noteq> []"
  shows "\<exists>l. drive var (Yield v kn kt) p w =
     w\<lparr>heap := heap w @ [\<lparr>state = Some (Fulfilled v), waiting = [], maker = l\<rparr>],
       queue := queue w @ [React (Resume var kn kt p) (Fulfilled v)]\<rparr>"
proof (cases var)
  case Bluebird_based
  then obtain h hs where "yieldHandlers w = h # hs"
    using assms(2) by (cases "yieldHandlers w") auto
  moreover have "h = Resolve_handler" by (cases h) simp
  ultimately have "drive var (Yield v kn kt) p w =
     w\<lparr>heap := heap w @ [\<lparr>state = Some (Fulfilled v), waiting = [], maker = Promise_global w\<rparr>],
       queue := queue w @ [React (Resume var kn kt p) (Fulfilled v)]\<rparr>"
    using assms(1) Bluebird_based
    by (simp add: yieldHandler_def Promise_resolve_def awaitable_def new_cell_def promise_then_def)
  then show ?thesis by blast
next
  case Q_based
  then have "drive var (Yield v kn kt) p w =
     w\<lparr>heap := heap w @ [\<lparr>state = Some (Fulfilled v), waiting = [], maker = Q\<rparr>],
       queue := queue w @ [React (Resume var kn kt p) (Fulfilled v)]\<rparr>"
    using assms(1) by (simp add: new_cell_def promise_then_def)
  then show ?thesis by blast
qed

lemma fire:
  assumes jr: "job_result hb j = Some R" and jt: "job_target j = a"
    and a: "a < length (heap w)" "state (heap w ! a) = None"
    and own: "own_jobs a w = []" "\<forall>i < length (heap w). own_reacts a w i = []"
    and hb: "hb \<longrightarrow> yieldHandlers w \<noteq> []"
  shows "a < length (heap (run_job j w)) \<and>
     (state (heap (run_job j w) ! a) = Some R \<or>
      (\<exists>j'. queued a j' (run_job j w) \<and> job_result hb j' = Some R \<and> job_rank j' < job_rank j))"
proof (cases j)
  case (Tick_resolve p v)
  then show ?thesis using jr jt a
    by (simp add: resolve_def settle_def awaitable_def split: if_splits)
next
  case (Tick_reject p e)
  then show ?thesis using jr jt a
    by (simp add: reject_def settle_def)
next
  case (React r oc)
  show ?thesis
  proof (cases r)
    case (Forward p)
    have p: "p = a" using jt React Forward by simp
    have oc: "oc = R" "plain_outcome R"
      using jr React Forward by (simp_all split: if_splits)
    have "run_job j w = settle a R w"
      using React Forward p oc
      by (cases R) (simp_all add: resolve_def reject_def awaitable_def)
    then show ?thesis using a by (simp add: settle_def)
  next
    case (Resume var kn kt p)
    define g where "g = body_of oc kn kt"
    have p: "p = a" using jt React Resume by simp
    have g: "plain_gen g" "result g = R" "var = Bluebird_based \<longrightarrow> hb"
      using jr React Resume by (simp_all add: g_def split: if_splits)
    have rj: "run_job j w = drive var g a w"
      using React Resume p by (simp add: run_job_Resume g_def)
    have rk: "job_rank j = yields g" using React Resume by (simp add: g_def)
    show ?thesis
    proof (cases g)
      case (Return v)
      then show ?thesis using g a unfolding rj
        by (simp add: resolve_def settle_def awaitable_def)
    next
      case (Throw e)
      then show ?thesis using g a unfolding rj
        by (simp add: reject_def settle_def)
    next
      case (Yield v kn' kt')
      have v: "promise_addr v = None" and k: "plain_gen (kn' v)"
        using g(1) Yield by (simp_all add: awaitable_def)
      define j' where "j' = React (Resume var kn' kt' a) (Fulfilled v)"
      obtain l where d: "drive var g a w =
          w\<lparr>heap := heap w @ [\<lparr>state = Some (Fulfilled v), waiting = [], maker = l\<rparr>],
            queue := queue w @ [j']\<rparr>"
        unfolding Yield j'_def using drive_plain_yield [OF v] g(3) hb by blast
      have "queued a j' (drive var g a w)"
        unfolding d queued_def own_jobs_def own_reacts_def
        using a own by (auto simp: own_jobs_def own_reacts_def nth_append j'_def less_Suc_eq)
      moreover have "job_result hb j' = Some R"
        using k g(2,3) Yield by (simp add: j'_def)
      moreover have "job_rank j' < job_rank j"
        unfolding rk using Yield by (simp add: j'_def)
      moreover have "a < length (heap (drive var g a w))" using a(1) by (simp add: d)
      ultimately show ?thesis unfolding rj by blast
    qed (use g(1) in simp_all)
  qed
qed

lemma length_run_job: "length (heap w) \<le> length (heap (run_job j w))"
  using pres_run_job [OF pres_queue [of "queue w"], where w = w and j = j] by simp

lemma tracked_state:
  assumes "tracked hb (q # qs) oq w" and "state (heap w ! q) = Some oc"
  shows "oc = oq"
  using assms by (cases qs) (auto simp: queued_def hooked_def)

lemma tracked_step:
  assumes wf: "wf_world w" and hb: "hb \<longrightarrow> yieldHandlers w \<noteq> []" and qu: "queue w = j0 # js"
  shows "tracked hb as R w \<Longrightarrow> tracked hb as R (run_job j0 (w\<lparr>queue := js\<rparr>))"
proof (induction as arbitrary: R)
  case Nil
  then show ?case by simp
next
  case (Cons a qs)
  define w0 where "w0 = w\<lparr>queue := js\<rparr>"
  define w1 where "w1 = run_job j0 w0"
  have wf0: "wf_world w0" and tj: "job_target j0 < length (heap w0)"
    using wf_pop [OF wf qu] by (simp_all add: w0_def)
  have hb0: "hb \<longrightarrow> yieldHandlers w0 \<noteq> []" using hb by (simp add: w0_def)
  have a: "a < length (heap w)" using Cons.prems by simp
  have a1: "a < length (heap w1)"
    using a length_run_job [of w0 j0] by (simp add: w1_def w0_def)
  have oj: "own_jobs a w = (if job_target j0 = a then [j0] else []) @ own_jobs a w0"
    using qu by (simp add: own_jobs_def w0_def)
  have orr: "\<And>i. own_reacts a w0 i = own_reacts a w i" by (simp add: own_reacts_def w0_def)
  consider (settled) "state (heap w ! a) = Some R"
    | (queued) j where "queued a j w" "job_result hb j = Some R"
    | (hooked) q qs' c oq where "qs = q # qs'" "state (heap w ! q) = None" "hooked a q c w"
        "job_result hb (React c oq) = Some R" "tracked hb qs oq w"
  proof -
    have d: "state (heap w ! a) = Some R \<or>
       (\<exists>j. queued a j w \<and> job_result hb j = Some R) \<or>
       (case qs of
          [] \<Rightarrow> False
        | q # qs' \<Rightarrow>
            state (heap w ! q) = None \<and>
            (\<exists>c oq. hooked a q c w \<and> job_result hb (React c oq) = Some R \<and>
               tracked hb qs oq w))"
      using Cons.prems by simp
    show ?thesis
    proof (cases qs)
      case Nil
      then show ?thesis using d settled queued by auto
    next
      case (Cons q qs')
      then show ?thesis using d settled queued hooked [of q qs']
        by (auto simp del: tracked.simps)
    qed
  qed
  then have "state (heap w1 ! a) = Some R \<or>
       (\<exists>j. queued a j w1 \<and> job_result hb j = Some R) \<or>
       (case qs of
          [] \<Rightarrow> False
        | q # qs' \<Rightarrow>
            state (heap w1 ! q) = None \<and>
            (\<exists>c oq. hooked a q c w1 \<and> job_result hb (React c oq) = Some R \<and>
               tracked hb qs oq w1))"
  proof cases
    case settled
    then have "state (heap w0 ! a) = Some R" by (simp add: w0_def)
    then have "state (heap w1 ! a) = Some R"
      unfolding w1_def using settled_run_job [of a w0 R j0] a by (simp add: w0_def)
    then show ?thesis by simp
  next
    case (queued j)
    show ?thesis
    proof (cases "job_target j0 = a")
      case True
      have "own_jobs a w = [j]" using queued(1) by (simp add: queued_def)
      then have j: "j0 = j" "own_jobs a w0 = []" using oj True by simp_all
      have "a < length (heap w0)" "state (heap w0 ! a) = None"
        "\<forall>i < length (heap w0). own_reacts a w0 i = []"
        using queued(1) by (simp_all add: queued_def w0_def own_reacts_def)
      then have "a < length (heap (run_job j w0)) \<and>
         (state (heap (run_job j w0) ! a) = Some R \<or>
          (\<exists>j'. queued a j' (run_job j w0) \<and> job_result hb j' = Some R \<and> job_rank j' < job_rank j))"
        using fire [OF queued(2) _ _ _ j(2) _ hb0] True j(1) by simp
      then show ?thesis unfolding w1_def j(1) by blast
    next
      case False
      have "own_jobs a w0 = own_jobs a w" using oj False by simp
      then have "queued a j w0" using queued(1) by (simp add: queued_def w0_def own_reacts_def)
      then have "queued a j w1"
        unfolding w1_def
        using pres_run_job [OF pres_queued, where a1 = a and j1 = j and w = w0 and j = j0] tj False
        by simp
      then show ?thesis using queued(2) by blast
    qed
  next
    case (hooked q qs' c oq)
    have "own_jobs a w = []" using hooked(2,3) by (simp add: hooked_def)
    then have nt: "job_target j0 \<noteq> a" and "own_jobs a w0 = own_jobs a w"
      using oj by (auto split: if_splits)
    then have "hooked a q c w0"
      using hooked(2,3) orr by (simp add: hooked_def) (simp add: w0_def)
    then have h1: "hooked a q c w1"
      unfolding w1_def
      using pres_run_job [OF pres_hooked, where a1 = a and q1 = q and c1 = c and w = w0 and j = j0]
        tj nt by simp
    have t1: "tracked hb qs oq w1"
      unfolding w1_def w0_def using hooked(5) by (rule Cons.IH)
    show ?thesis
    proof (cases "state (heap w1 ! q)")
      case None
      then show ?thesis using h1 t1 hooked(1,4) by auto
    next
      case (Some oc)
      then have "oc = oq" using t1 hooked(1) tracked_state by blast
      then have "queued a (React c oq) w1"
        using h1 Some by (auto simp: hooked_def queued_def)
      then show ?thesis using hooked(4) by blast
    qed
  qed
  then have "tracked hb (a # qs) R w1" using a1 by simp
  then show ?case unfolding w1_def w0_def .
qed

lemma host_ok_run: "host_ok hb w \<Longrightarrow> host_ok hb (run n w)"
  using wf_run [of w n] globals_run [of n w] by (simp add: host_ok_def)

lemma host_ok_step:
  assumes "host_ok hb w" and "queue w = j0 # js"
  shows "host_ok hb (run_job j0 (w\<lparr>queue := js\<rparr>))"
  using host_ok_run [OF assms(1), of "Suc 0"] assms(2) by simp

lemma tracked_run:
  assumes "host_ok hb w" and "tracked hb as R w"
  shows "tracked hb as R (run n w)"
  using assms
proof (induction n arbitrary: w)
  case 0
  then show ?case by simp
next
  case (Suc n)
  show ?case
  proof (cases "queue w")
    case Nil
    then show ?thesis using Suc.prems by simp
  next
    case (Cons j0 js)
    have "tracked hb as R (run_job j0 (w\<lparr>queue := js\<rparr>))"
      using Suc.prems Cons by (intro tracked_step) (simp_all add: host_ok_def)
    then show ?thesis
      using Cons Suc.IH host_ok_step [OF Suc.prems(1) Cons] by simp
  qed
qed

lemma queued_reaches_head:
  assumes "host_ok hb w" and "queued a j w" and "i < length (queue w)" and "queue w ! i = j"
  shows "host_ok hb (run i w) \<and> queued a j (run i w) \<and> (\<exists>js. queue (run i w) = j # js)"
  using assms
proof (induction i arbitrary: w)
  case 0
  then show ?case by (cases "queue w") simp_all
next
  case (Suc i)
  then obtain j0 js where qu: "queue w = j0 # js" by (cases "queue w") simp_all
  define w0 where "w0 = w\<lparr>queue := js\<rparr>"
  define w1 where "w1 = run_job j0 w0"
  have r: "run (Suc i) w = run i w1" using qu by (simp add: w1_def w0_def)
  have js: "i < length js" "js ! i = j" using Suc.prems(3,4) qu by simp_all
  have jt: "job_target j = a"
  proof -
    have "j \<in> set (own_jobs a w)" using Suc.prems(2) by (simp add: queued_def)
    then show ?thesis by (simp add: own_jobs_def)
  qed
  have "own_jobs a w = [j]" using Suc.prems(2) by (simp add: queued_def)
  moreover have "j \<in> set (filter (\<lambda>x. job_target x = a) js)" using js jt by auto
  ultimately have nt: "job_target j0 \<noteq> a" and oj: "own_jobs a w0 = [j]"
    using qu by (auto simp: own_jobs_def w0_def filter_empty_conv split: if_splits)
  have "queued a j w0"
    using Suc.prems(2) oj by (simp add: queued_def) (simp add: w0_def own_reacts_def)
  moreover have "job_target j0 < length (heap w0)"
    using wf_pop [of w j0 js] Suc.prems(1) qu by (simp add: host_ok_def w0_def)
  ultimately have 1: "queued a j w1"
    unfolding w1_def
    using pres_run_job [OF pres_queued, where a1 = a and j1 = j and w = w0 and j = j0] nt by simp
  have 2: "host_ok hb w1" unfolding w1_def w0_def using Suc.prems(1) qu by (rule host_ok_step)
  obtain ys where "queue w1 = js @ ys"
    using queue_run_job [of j0 w0] by (auto simp: w1_def w0_def)
  then have 3: "i < length (queue w1)" "queue w1 ! i = j" using js by (simp_all add: nth_append)
  show ?case unfolding r using 2 1 3 by (rule Suc.IH)
qed

lemma queued_settles:
  assumes "host_ok hb w" and "queued a j w" and "job_result hb j = Some R"
  shows "\<exists>k. state (heap (run k w) ! a) = Some R"
  using assms
proof (induction "job_rank j" arbitrary: j w rule: less_induct)
  case less
  have "j \<in> set (own_jobs a w)" using less.prems(2) by (simp add: queued_def)
  then have "j \<in> set (queue w)" and jt: "job_target j = a" by (simp_all add: own_jobs_def)
  then obtain i where i: "i < length (queue w)" "queue w ! i = j" by (auto simp: in_set_conv_nth)
  define w1 where "w1 = run i w"
  obtain js where w1: "host_ok hb w1" "queued a j w1" "queue w1 = j # js"
    using queued_reaches_head [OF less.prems(1,2) i] by (auto simp: w1_def)
  define w0 where "w0 = w1\<lparr>queue := js\<rparr>"
  define w2 where "w2 = run_job j w0"
  have r: "run (Suc i) w = w2"
    using run_add [of i "Suc 0" w] w1(3) by (simp add: w1_def w2_def w0_def)
  have "own_jobs a w1 = [j]" using w1(2) by (simp add: queued_def)
  then have "own_jobs a w0 = []" using w1(3) jt by (simp add: own_jobs_def w0_def)
  moreover have "a < length (heap w0)" "state (heap w0 ! a) = None"
    "\<forall>i < length (heap w0). own_reacts a w0 i = []"
    using w1(2) by (simp_all add: queued_def w0_def own_reacts_def)
  moreover have "hb \<longrightarrow> yieldHandlers w0 \<noteq> []" using w1(1) by (simp add: host_ok_def w0_def)
  ultimately have f: "state (heap w2 ! a) = Some R \<or>
      (\<exists>j'. queued a j' w2 \<and> job_result hb j' = Some R \<and> job_rank j' < job_rank j)"
    unfolding w2_def using fire [OF less.prems(3) jt] by blast
  have h2: "host_ok hb w2" unfolding w2_def w0_def using w1(1,3) by (rule host_ok_step)
  show ?case
  proof (cases "state (heap w2 ! a) = Some R")
    case True
    then show ?thesis using r by blast
  next
    case False
    then obtain j' where "queued a j' w2" "job_result hb j' = Some R" "job_rank j' < job_rank j"
      using f by blast
    then obtain k where "state (heap (run k w2) ! a) = Some R"
      using less.hyps h2 by blast
    then have "state (heap (run (Suc i + k) w) ! a) = Some R"
      using run_add [of "Suc i" k w] r by simp
    then show ?thesis by blast
  qed
qed

lemma tracked_progress:
  assumes "host_ok hb w"
  shows "tracked hb as R w \<Longrightarrow> \<exists>k. state (heap (run k w) ! hd as) = Some R"
  using assms
proof (induction as arbitrary: R w)
  case Nil
  then show ?case by simp
next
  case (Cons a qs)
  have key: "\<exists>k. state (heap (run k w') ! a) = Some R"
    if "host_ok hb w'" and "state (heap w' ! a) = Some R \<or> (\<exists>j. queued a j w' \<and> job_result hb j = Some R)"
    for w'
  proof (cases "state (heap w' ! a) = Some R")
    case True
    then have "state (heap (run 0 w') ! a) = Some R" by simp
    then show ?thesis by blast
  next
    case False
    then show ?thesis using that queued_settles by blast
  qed
  show ?case
  proof (cases qs)
    case Nil
    then show ?thesis using Cons.prems key [of w] by auto
  next
    case (Cons q qs')
    show ?thesis
    proof (cases "state (heap w ! a) = Some R \<or> (\<exists>j. queued a j w \<and> job_result hb j = Some R)")
      case True
      then show ?thesis using key Cons.prems(2) by simp
    next
      case False
      then obtain c oq where h: "hooked a q c w" "job_result hb (React c oq) = Some R"
        "tracked hb qs oq w"
        using Cons.prems(1) Cons by (auto simp del: tracked.simps simp add: tracked.simps(2) [of hb a])
      obtain k1 where k1: "state (heap (run k1 w) ! q) = Some oq"
        using Cons.IH [OF h(3) Cons.prems(2)] Cons by auto
      define w1 where "w1 = run k1 w"
      have t1: "tracked hb (a # qs) R w1" and h1: "host_ok hb w1"
        unfolding w1_def using Cons.prems by (simp_all add: tracked_run host_ok_run del: tracked.simps)
      have "state (heap w1 ! a) = Some R \<or> (\<exists>j. queued a j w1 \<and> job_result hb j = Some R)"
        using t1 k1 Cons by (auto simp: w1_def)
      then obtain k2 where "state (heap (run k2 w1) ! a) = Some R" using key h1 by blast
      then have "state (heap (run (k1 + k2) w) ! a) = Some R"
        using run_add [of k1 k2 w] by (simp add: w1_def)
      then show ?thesis by auto
    qed
  qed
qed

lemma tracked_settles:
  assumes "host_ok hb w" and "tracked hb (a # qs) R w"
  shows "\<exists>k. \<forall>m\<ge>k. promise_state (run m w) (Promise a) = Some R"
proof -
  obtain k where k: "state (heap (run k w) ! a) = Some R"
    using tracked_progress [OF assms] by auto
  have "tracked hb (a # qs) R (run k w)" using assms by (rule tracked_run)
  then have ak: "a < length (heap (run k w))" by simp
  have "\<forall>m\<ge>k. promise_state (run m w) (Promise a) = Some R"
  proof (intro allI impI)
    fix m assume "k \<le> m"
    then have "run m w = run (m - k) (run k w)" using run_add [of k "m - k" w] by simp
    then show "promise_state (run m w) (Promise a) = Some R"
      using settled_run [OF ak k, of "m - k"] by (simp add: promise_state_def)
  qed
  then show ?thesis by blast
qed

lemma untouched_fresh:
  assumes "wf_world w"
  shows "untouched (length (heap w)) (snd (new_cell l None w))"
proof -
  have "\<forall>j \<in> set (queue w). job_target j \<noteq> length (heap w)"
    and "\<forall>i < length (heap w). \<forall>r \<in> set (waiting (heap w ! i)). reaction_target r \<noteq> length (heap w)"
    using assms unfolding wf_world_iff by fastforce+
  then show ?thesis
    unfolding untouched_def own_jobs_def own_reacts_def
    by (auto simp: new_cell_def nth_append less_Suc_eq filter_empty_conv)
qed

lemma untouched_new_cell:
  assumes "untouched a w"
  shows "untouched a (snd (new_cell l s w))"
  using assms unfolding untouched_def own_jobs_def own_reacts_def
  by (auto simp: new_cell_def nth_append less_Suc_eq)

lemma untouched_nextTick:
  assumes "untouched a w" and "job_target j' \<noteq> a"
  shows "untouched a (nextTick j' w)"
  using assms unfolding untouched_def own_jobs_def own_reacts_def
  by (auto simp: nextTick_def)

lemma untouched_promise_then:
  assumes "untouched a w" and "reaction_target r \<noteq> a"
  shows "untouched a (promise_then x r w)"
proof (cases "x < length (heap w)")
  case False
  then show ?thesis using assms by (simp add: promise_then_def)
next
  case True
  show ?thesis
  proof (cases "state (heap w ! x)")
    case (Some oc)
    then show ?thesis using assms True
      unfolding untouched_def own_jobs_def own_reacts_def
      by (auto simp: promise_then_def)
  next
    case None
    then show ?thesis using assms True
      unfolding untouched_def own_jobs_def own_reacts_def
      by (auto simp: promise_then_def nth_list_update)
  qed
qed

lemma untouched_settle:
  assumes "untouched a w" and "p \<noteq> a"
  shows "untouched a (settle p oc w)"
proof (cases "p < length (heap w) \<and> state (heap w ! p) = None")
  case False
  then have "settle p oc w = w" by (auto simp: settle_def)
  then show ?thesis using assms(1) by simp
next
  case True
  have "own_reacts a w p = []" using assms(1) True by (simp add: untouched_def)
  then show ?thesis
    using assms True unfolding untouched_def own_jobs_def own_reacts_def
    by (auto simp: settle_def nth_list_update filter_React)
qed

lemma pres_untouched: "preserved (untouched a) (\<lambda>n p. p < n \<and> p \<noteq> a)"
  unfolding preserved_def
proof (intro conjI allI impI)
  fix w assume "untouched a w"
  then show "length (heap w) \<noteq> a"
    by (auto simp: untouched_def)
qed (simp_all add: untouched_new_cell untouched_settle untouched_promise_then untouched_nextTick)

lemma untouched_queue:
  assumes "untouched a w" and "job_target j = a"
  shows "queued a j (nextTick j w)"
  using assms unfolding untouched_def queued_def own_jobs_def own_reacts_def
  by (auto simp: nextTick_def)

lemma untouched_hook:
  assumes "untouched a w" and "reaction_target c = a" and "q < length (heap w)" and "q \<noteq> a"
  shows "case state (heap w ! q) of
           None \<Rightarrow> hooked a q c (promise_then q c w) \<and> state (heap (promise_then q c w) ! q) = None
         | Some oc \<Rightarrow> queued a (React c oc) (promise_then q c w)"
proof (cases "state (heap w ! q)")
  case None
  then show ?thesis
    using assms unfolding untouched_def hooked_def own_jobs_def own_reacts_def
    by (auto simp: promise_then_def nth_list_update)
next
  case (Some oc)
  then show ?thesis
    using assms unfolding untouched_def queued_def own_jobs_def own_reacts_def
    by (auto simp: promise_then_def)
qed

lemma tracked_mono:
  assumes len: "length (heap w) \<le> length (heap w')"
    and st: "\<And>a oc. a < length (heap w) \<Longrightarrow> state (heap w ! a) = Some oc \<Longrightarrow>
               state (heap w' ! a) = Some oc"
    and qd: "\<And>a j. a \<in> set as \<Longrightarrow> queued a j w \<Longrightarrow> queued a j w'"
    and hk: "\<And>a q c. a \<in> set as \<Longrightarrow> hooked a q c w \<Longrightarrow> hooked a q c w'"
  shows "set bs \<subseteq> set as \<Longrightarrow> tracked hb bs R w \<Longrightarrow> tracked hb bs R w'"
proof (induction bs arbitrary: R)
  case Nil
  then show ?case by simp
next
  case (Cons a qs)
  have ain: "a \<in> set as" and sub: "set qs \<subseteq> set as" using Cons.prems(1) by simp_all
  have a: "a < length (heap w)" using Cons.prems(2) by simp
  have d: "state (heap w ! a) = Some R \<or>
       (\<exists>j. queued a j w \<and> job_result hb j = Some R) \<or>
       (case qs of
          [] \<Rightarrow> False
        | q # qs' \<Rightarrow>
            state (heap w ! q) = None \<and>
            (\<exists>c oq. hooked a q c w \<and> job_result hb (React c oq) = Some R \<and>
               tracked hb qs oq w))"
    using Cons.prems(2) by simp
  have "state (heap w' ! a) = Some R \<or>
       (\<exists>j. queued a j w' \<and> job_result hb j = Some R) \<or>
       (case qs of
          [] \<Rightarrow> False
        | q # qs' \<Rightarrow>
            state (heap w' ! q) = None \<and>
            (\<exists>c oq. hooked a q c w' \<and> job_result hb (React c oq) = Some R \<and>
               tracked hb qs oq w'))"
  proof (cases "state (heap w ! a) = Some R \<or> (\<exists>j. queued a j w \<and> job_result hb j = Some R)")
    case True
    then show ?thesis using st [OF a] qd [OF ain] by blast
  next
    case False
    then obtain q qs' c oq where h: "qs = q # qs'" "hooked a q c w"
        "job_result hb (React c oq) = Some R" "tracked hb qs oq w"
      using d by (cases qs) (auto simp del: tracked.simps)
    have h1: "hooked a q c w'" using hk [OF ain h(2)] .
    have t1: "tracked hb qs oq w'" using Cons.IH [OF sub h(4)] .
    show ?thesis
    proof (cases "state (heap w' ! q)")
      case None
      then show ?thesis using h1 t1 h(1,3) by auto
    next
      case (Some oc)
      then have "oc = oq" using t1 h(1) tracked_state by blast
      then have "queued a (React c oq) w'"
        using h1 Some by (auto simp: hooked_def queued_def)
      then show ?thesis using h(3) by blast
    qed
  qed
  moreover have "a < length (heap w')" using a len by simp
  ultimately show ?case by simp
qed

lemma tracking_mono:
  assumes "tracking hb as R w"
    and "length (heap w) \<le> length (heap w')"
    and "\<And>a oc. a < length (heap w) \<Longrightarrow> state (heap w ! a) = Some oc \<Longrightarrow>
               state (heap w' ! a) = Some oc"
    and "\<And>a j. a \<in> set as \<Longrightarrow> queued a j w \<Longrightarrow> queued a j w'"
    and "\<And>a q c. a \<in> set as \<Longrightarrow> hooked a q c w \<Longrightarrow> hooked a q c w'"
  shows "tracking hb as R w'"
proof -
  have "tracked hb as R w'"
    using assms(2-5) subset_refl assms(1) [unfolded tracking_def, THEN conjunct1]
    by (rule tracked_mono)
  then show ?thesis using assms(1,2) by (auto simp: tracking_def)
qed

lemma settled_settle:
  assumes "a < length (heap w)" and "state (heap w ! a) = Some oc"
  shows "state (heap (settle p oc' w) ! a) = Some oc"
  using assms by (auto simp: settle_def nth_list_update)

lemma settled_promise_then:
  assumes "a < length (heap w)" and "state (heap w ! a) = Some oc"
  shows "state (heap (promise_then x r w) ! a) = Some oc"
  using assms by (auto simp: promise_then_def nth_list_update split: option.splits)

lemma pres_tracking: "preserved (tracking hb as R) (\<lambda>n p. p < n \<and> p \<notin> set as)"
  unfolding preserved_def
proof (intro conjI allI impI)
  fix l s w assume t: "tracking hb as R w"
  show "tracking hb as R (snd (new_cell l s w))"
    using t
  proof (rule tracking_mono)
    fix a oc assume "a < length (heap w)" "state (heap w ! a) = Some oc"
    then show "state (heap (snd (new_cell l s w)) ! a) = Some oc"
      by (simp add: new_cell_def nth_append)
  qed (simp_all add: queued_new_cell hooked_new_cell)
next
  fix p oc w assume t: "tracking hb as R w" and p: "p < length (heap w) \<and> p \<notin> set as"
  show "tracking hb as R (settle p oc w)"
    using t
  proof (rule tracking_mono)
    fix a j assume "a \<in> set as" "queued a j w"
    then show "queued a j (settle p oc w)" using p by (intro queued_settle) auto
  next
    fix a q c assume "a \<in> set as" "hooked a q c w"
    then show "hooked a q c (settle p oc w)" using p by (intro hooked_settle) auto
  qed (simp_all add: settled_settle)
next
  fix x r w assume t: "tracking hb as R w"
    and p: "reaction_target r < length (heap w) \<and> reaction_target r \<notin> set as"
  show "tracking hb as R (promise_then x r w)"
    using t
  proof (rule tracking_mono)
    fix a j assume "a \<in> set as" "queued a j w"
    then show "queued a j (promise_then x r w)" using p by (intro queued_promise_then) auto
  next
    fix a q c assume "a \<in> set as" "hooked a q c w"
    then show "hooked a q c (promise_then x r w)" using p by (intro hooked_promise_then) auto
  qed (simp_all add: settled_promise_then)
next
  fix j w assume t: "tracking hb as R w"
    and p: "job_target j < length (heap w) \<and> job_target j \<notin> set as"
  show "tracking hb as R (nextTick j w)"
    using t
  proof (rule tracking_mono)
    fix a j' assume "a \<in> set as" "queued a j' w"
    then show "queued a j' (nextTick j w)" using p by (intro queued_nextTick) auto
  next
    fix a q c assume "a \<in> set as" "hooked a q c w"
    then show "hooked a q c (nextTick j w)" using p by (intro hooked_nextTick) auto
  qed (simp_all add: nextTick_def)
next
  fix w assume "tracking hb as R w"
  then show "length (heap w) \<notin> set as" by (auto simp: tracking_def)
qed simp_all

lemma job_result_plain: "job_result hb j = Some R \<Longrightarrow> plain_outcome R"
proof (cases j)
  case (React r oc)
  assume jr: "job_result hb j = Some R"
  show ?thesis
  proof (cases r)
    case (Forward p)
    then show ?thesis using jr React by (simp split: if_splits)
  next
    case (Resume var kn kt p)
    then have "plain_gen (body_of oc kn kt)" "R = result (body_of oc kn kt)"
      using jr React by (auto split: if_splits)
    then show ?thesis
      using plain_gen_result [of "body_of oc kn kt"]
      by (cases "result (body_of oc kn kt)") (simp_all add: awaitable_def)
  qed
qed (auto split: if_splits)

lemma tracked_plain:
  assumes "wf_world w" and "tracked hb (a # qs) R w"
  shows "plain_outcome R"
proof -
  have a: "a < length (heap w)" using assms(2) by simp
  have d: "state (heap w ! a) = Some R \<or>
       (\<exists>j. queued a j w \<and> job_result hb j = Some R) \<or>
       (\<exists>c oq. job_result hb (React c oq) = Some R)"
    using assms(2) by (cases qs) auto
  show ?thesis
  proof (cases "state (heap w ! a) = Some R")
    case True
    moreover have "plain_state (state (heap w ! a))" using assms(1) a by (simp add: wf_world_iff)
    ultimately show ?thesis by simp
  next
    case False
    then show ?thesis using d job_result_plain by blast
  qed
qed

lemma drive_plain_tracking:
  assumes "untouched p w" and "plain_gen g" and "var = Bluebird_based \<longrightarrow> hb"
    and "hb \<longrightarrow> yieldHandlers w \<noteq> []"
  shows "tracking hb [p] (result g) (drive var g p w)"
proof -
  define j where "j = React (Resume var (\<lambda>x. g) Throw p) (Fulfilled Undefined)"
  have rj: "run_job j w = drive var g p w" by (simp add: j_def)
  have "job_result hb j = Some (result g)" using assms(2,3) by (simp add: j_def)
  moreover have "job_target j = p" by (simp add: j_def)
  moreover have "p < length (heap w)" "state (heap w ! p) = None" "own_jobs p w = []"
    "\<forall>i < length (heap w). own_reacts p w i = []"
    using assms(1) by (simp_all add: untouched_def)
  ultimately have "p < length (heap (run_job j w)) \<and>
     (state (heap (run_job j w) ! p) = Some (result g) \<or>
      (\<exists>j'. queued p j' (run_job j w) \<and> job_result hb j' = Some (result g) \<and> job_rank j' < job_rank j))"
    using assms(4) by (rule fire)
  then show ?thesis unfolding rj tracking_def by auto
qed

lemma await_tracking:
  assumes u: "untouched p w" and t: "tracking hb (q # qs) oq w" and n: "p \<notin> set (q # qs)"
    and c: "reaction_target c = p" and jr: "job_result hb (React c oq) = Some R"
  shows "tracking hb (p # q # qs) R (promise_then q c w)"
proof -
  define w' where "w' = promise_then q c w"
  have p: "p < length (heap w)" using u by (simp add: untouched_def)
  have q: "q < length (heap w)" "q \<noteq> p" using t n by (auto simp: tracking_def)
  have t': "tracking hb (q # qs) oq w'"
    unfolding w'_def using t p n c by (intro preservedD(3) [OF pres_tracking]) simp_all
  have len: "length (heap w') = length (heap w)" by (simp add: w'_def)
  have "tracked hb (p # q # qs) R w'"
  proof (cases "state (heap w ! q)")
    case None
    then have "hooked p q c w'" "state (heap w' ! q) = None"
      using untouched_hook [OF u c q(1,2)] by (simp_all add: w'_def)
    then show ?thesis using t' jr p len by (auto simp: tracking_def simp del: tracked.simps
          simp add: tracked.simps(2) [of hb p])
  next
    case (Some oc)
    then have "oc = oq" using t tracked_state unfolding tracking_def by blast
    then have "queued p (React c oq) w'"
      using untouched_hook [OF u c q(1,2)] Some by (simp add: w'_def)
    then show ?thesis using jr p len by (auto simp del: tracked.simps
          simp add: tracked.simps(2) [of hb p])
  qed
  then show ?thesis using t' p len unfolding w'_def [symmetric] by (auto simp: tracking_def)
qed

lemma yield_tracking:
  assumes "untouched p w" and "tracking hb (q # qs) oq w" and "p \<notin> set (q # qs)"
    and "plain_gen (body_of oq kn kt)" and "var = Bluebird_based \<longrightarrow> hb"
  shows "tracking hb (p # q # qs) (result (body_of oq kn kt)) (drive var (Yield (Promise q) kn kt) p w)"
proof -
  have "drive var (Yield (Promise q) kn kt) p w = promise_then q (Resume var kn kt p) w"
    by simp
  moreover have "tracking hb (p # q # qs) (result (body_of oq kn kt))
      (promise_then q (Resume var kn kt p) w)"
    using assms(1-3) by (rule await_tracking) (use assms(4,5) in simp_all)
  ultimately show ?thesis by simp
qed

lemma forward_tracking:
  assumes wf: "wf_world w" and t: "tracking hb (q # qs) R w"
  shows "tracking hb (length (heap w) # q # qs) R
           (snd (new_Promise (\<lambda>a. promise_then q (Forward a)) w))"
proof -
  define a where "a = length (heap w)"
  define w1 where "w1 = snd (new_cell (Promise_global w) None w)"
  have e: "snd (new_Promise (\<lambda>a. promise_then q (Forward a)) w) = promise_then q (Forward a) w1"
    by (simp add: new_Promise_def new_cell_def a_def w1_def)
  have u: "untouched a w1" unfolding a_def w1_def using wf by (rule untouched_fresh)
  have t1: "tracking hb (q # qs) R w1"
    unfolding w1_def using t by (intro preservedD(1) [OF pres_tracking]) simp_all
  have n: "a \<notin> set (q # qs)" using t by (auto simp: tracking_def a_def)
  have "plain_outcome R" using wf t tracked_plain unfolding tracking_def by blast
  then have "job_result hb (React (Forward a) R) = Some R" by simp
  then show ?thesis
    unfolding e a_def [symmetric]
    using await_tracking [OF u t1 n, of "Forward a" R] by simp
qed

lemma belay_tracking:
  assumes "wf_world w" and "\<not> awaitable v"
  shows "tracking hb [length (heap w)] (Fulfilled v) (snd (belay v w))"
proof -
  define q where "q = length (heap w)"
  have e: "snd (belay v w) = nextTick (Tick_resolve q v) (snd (new_cell (Promise_global w) None w))"
    by (simp add: belay_def new_Promise_def new_cell_def q_def)
  have "untouched q (snd (new_cell (Promise_global w) None w))"
    unfolding q_def using assms(1) by (rule untouched_fresh)
  then have "queued q (Tick_resolve q v) (snd (belay v w))"
    unfolding e by (rule untouched_queue) simp
  then show ?thesis
    unfolding q_def [symmetric] using assms(2) by (auto simp: tracking_def queued_def)
qed

lemma belayError_tracking:
  assumes "wf_world w"
  shows "tracking hb [length (heap w)] (Rejected e) (snd (belayError e w))"
proof -
  define q where "q = length (heap w)"
  have e: "snd (belayError e w) = nextTick (Tick_reject q e) (snd (new_cell (Promise_global w) None w))"
    by (simp add: belayError_def new_Promise_def new_cell_def q_def)
  have "untouched q (snd (new_cell (Promise_global w) None w))"
    unfolding q_def using assms(1) by (rule untouched_fresh)
  then have "queued q (Tick_reject q e) (snd (belayError e w))"
    unfolding e by (rule untouched_queue) simp
  then show ?thesis
    unfolding q_def [symmetric] by (auto simp: tracking_def queued_def)
qed

lemma Promise_resolve_tracking:
  assumes "\<not> awaitable v"
  shows "tracking hb [length (heap w)] (Fulfilled v) (snd (Promise_resolve v w))"
    and "fst (Promise_resolve v w) = Promise (length (heap w))"
  using assms by (simp_all add: Promise_resolve_def new_cell_def tracking_def)

lemma host_ok_new_cell:
  assumes "host_ok hb w" and "plain_state s"
  shows "host_ok hb (snd (new_cell l s w))"
  using assms wf_new_cell [of w s l] by (simp add: host_ok_def) (simp add: new_cell_def)

lemma host_ok_drive:
  assumes "host_ok hb w" and "p < length (heap w)"
  shows "host_ok hb (drive var g p w)"
  using assms pres_drive [OF pres_wf, of w p var g] globals_drive [of var g p w]
  by (simp add: host_ok_def)

lemma host_ok_module_load: "wf_world w \<Longrightarrow> host_ok True (module_load w)"
  by (simp add: host_ok_def wf_world_def module_load_def)

lemma foo_settles:
  assumes h: "host_ok True w"
    and body: "\<And>p w'. host_ok True w' \<Longrightarrow> untouched p w' \<Longrightarrow>
                 \<exists>qs. tracking True (p # qs) R (drive Bluebird_based (g args) p w')"
  shows "\<exists>k. \<forall>m\<ge>k. after m (foo g args w) = Some R"
proof -
  define p where "p = length (heap w)"
  define w1 where "w1 = snd (new_cell Bluebird None w)"
  define w2 where "w2 = drive Bluebird_based (g args) p w1"
  have e: "foo g args w = (Promise p, w2)"
    by (simp add: foo_def Promise_coroutine_def w1_def w2_def p_def new_cell_def)
  have h1: "host_ok True w1" unfolding w1_def using h by (rule host_ok_new_cell) simp
  have u: "untouched p w1" unfolding p_def w1_def using h by (intro untouched_fresh) (simp add: host_ok_def)
  obtain qs where t: "tracking True (p # qs) R w2"
    unfolding w2_def using body [OF h1 u] by blast
  have h2: "host_ok True w2"
    unfolding w2_def using h1 by (rule host_ok_drive) (simp add: p_def w1_def)
  have "tracked True (p # qs) R w2" using t unfolding tracking_def by (rule conjunct1)
  from tracked_settles [OF h2 this] show ?thesis unfolding e after_def by simp
qed

lemma foo_Q_settles:
  assumes h: "host_ok hb w"
    and body: "\<And>p w'. host_ok hb w' \<Longrightarrow> untouched p w' \<Longrightarrow>
                 \<exists>qs. tracking hb (p # qs) R (drive Q_based (g args) p w')"
  shows "\<exists>k. \<forall>m\<ge>k. after m (foo_Q g args w) = Some R"
proof -
  define q where "q = length (heap w)"
  define w1 where "w1 = snd (new_cell Q None w)"
  define w2 where "w2 = drive Q_based (g args) q w1"
  define a where "a = length (heap w2)"
  define w3 where "w3 = snd (new_Promise (\<lambda>a. promise_then q (Forward a)) w2)"
  have e: "foo_Q g args w = (Promise a, w3)"
    by (simp add: foo_Q_def Q_async_def new_Promise_def w1_def w2_def w3_def q_def a_def new_cell_def)
  have h1: "host_ok hb w1" unfolding w1_def using h by (rule host_ok_new_cell) simp
  have u: "untouched q w1" unfolding q_def w1_def using h by (intro untouched_fresh) (simp add: host_ok_def)
  obtain qs where t: "tracking hb (q # qs) R w2"
    unfolding w2_def using body [OF h1 u] by blast
  have h2: "host_ok hb w2"
    unfolding w2_def using h1 by (rule host_ok_drive) (simp add: q_def w1_def)
  have t3: "tracking hb (a # q # qs) R w3"
    unfolding a_def w3_def using h2 t by (intro forward_tracking) (simp_all add: host_ok_def)
  have "wf_world w3"
    unfolding w3_def using pres_forward [OF pres_wf, of w2 q] h2 by (simp add: host_ok_def)
  moreover have "yieldHandlers w3 = yieldHandlers w2"
    by (simp add: w3_def new_Promise_def new_cell_def promise_then_def split: option.splits)
  ultimately have h3: "host_ok hb w3" using h2 by (simp add: host_ok_def)
  have "tracked hb (a # q # qs) R w3" using t3 unfolding tracking_def by (rule conjunct1)
  from tracked_settles [OF h3 this] show ?thesis unfolding e after_def by simp
qed

lemma body_plain:
  assumes "host_ok hb w" and "untouched p w" and "var = Bluebird_based \<longrightarrow> hb"
    and "plain_gen g"
  shows "\<exists>qs. tracking hb (p # qs) (result g) (drive var g p w)"
  using drive_plain_tracking [OF assms(2,4,3)] assms(1) by (auto simp: host_ok_def)

lemma body_await:
  assumes u: "untouched p w1" and t: "tracking hb [length (heap w)] oq w1"
    and p: "p < length (heap w)"
    and pg: "plain_gen (body_of oq kn kt)" and v: "var = Bluebird_based \<longrightarrow> hb"
  shows "\<exists>qs. tracking hb (p # qs) (result (body_of oq kn kt))
           (drive var (Yield (Promise (length (heap w))) kn kt) p w1)"
proof -
  have "p \<notin> set [length (heap w)]" using p by simp
  from yield_tracking [OF u t this pg v] show ?thesis by blast
qed

lemma body_immediate:
  assumes "host_ok hb w" and "untouched p w" and "var = Bluebird_based \<longrightarrow> hb"
    and "\<not> awaitable v"
  shows "\<exists>qs. tracking hb (p # qs) (Fulfilled v) (drive var (gen_immediate v) p w)"
proof -
  define w1 where "w1 = snd (Promise_resolve v w)"
  have e: "drive var (gen_immediate v) p w = drive var (Yield (Promise (length (heap w))) Return Throw) p w1"
    using Promise_resolve_tracking(2) [OF assms(4), of w]
    by (simp add: gen_immediate_def split_beta w1_def)
  have u: "untouched p w1"
    unfolding w1_def using pres_Promise_resolve [OF pres_untouched assms(2)] by simp
  have t: "tracking hb [length (heap w)] (Fulfilled v) w1"
    unfolding w1_def using assms(4) by (rule Promise_resolve_tracking)
  have p: "p < length (heap w)" using assms(2) by (simp add: untouched_def)
  show ?thesis
    unfolding e using body_await [OF u t p, of Return Throw var] assms(3,4) by simp
qed

lemma body_async:
  assumes "host_ok hb w" and "untouched p w" and "var = Bluebird_based \<longrightarrow> hb"
    and "\<not> awaitable v"
  shows "\<exists>qs. tracking hb (p # qs) (Fulfilled v) (drive var (gen_async v) p w)"
proof -
  define w1 where "w1 = snd (belay v w)"
  note b = pres_belay [OF pres_untouched assms(2), of v]
  have e: "drive var (gen_async v) p w = drive var (Yield (Promise (length (heap w))) Return Throw) p w1"
    using b by (simp add: gen_async_def split_beta w1_def)
  have u: "untouched p w1" unfolding w1_def using b by simp
  have t: "tracking hb [length (heap w)] (Fulfilled v) w1"
    unfolding w1_def using assms(1,4) by (intro belay_tracking) (simp_all add: host_ok_def)
  have p: "p < length (heap w)" using assms(2) by (simp add: untouched_def)
  show ?thesis
    unfolding e using body_await [OF u t p, of Return Throw var] assms(3,4) by simp
qed


lemma body_belayError:
  assumes "host_ok hb w" and "untouched p w" and "var = Bluebird_based \<longrightarrow> hb"
    and "plain_gen (kt e)"
  shows "\<exists>qs. tracking hb (p # qs) (result (kt e))
           (drive var (Call_belayError e (\<lambda>y. Yield y kn kt)) p w)"
proof -
  define w1 where "w1 = snd (belayError e w)"
  note b = pres_belayError [OF pres_untouched assms(2), of e]
  have e: "drive var (Call_belayError e (\<lambda>y. Yield y kn kt)) p w
      = drive var (Yield (Promise (length (heap w))) kn kt) p w1"
    using b by (simp add: split_beta w1_def)
  have u: "untouched p w1" unfolding w1_def using b by simp
  have t: "tracking hb [length (heap w)] (Rejected e) w1"
    unfolding w1_def using assms(1) by (intro belayError_tracking) (simp_all add: host_ok_def)
  have p: "p < length (heap w)" using assms(2) by (simp add: untouched_def)
  show ?thesis
    unfolding e using body_await [OF u t p, of kn kt var] assms(3,4) by simp
qed

lemma body_catch:
  assumes "host_ok hb w" and "untouched p w" and "var = Bluebird_based \<longrightarrow> hb"
    and "plain_gen (h e)"
  shows "\<exists>qs. tracking hb (p # qs) (result (h e)) (drive var (gen_catch e h) p w)"
  unfolding gen_catch_def using assms by (rule body_belayError)




lemma both_settle:
  assumes wf: "wf_world w"
    and body: "\<And>hb var p w'. host_ok hb w' \<Longrightarrow> untouched p w' \<Longrightarrow> var = Bluebird_based \<longrightarrow> hb \<Longrightarrow>
                 \<exists>qs. tracking hb (p # qs) R (drive var (g args) p w')"
  shows "\<exists>k. \<forall>m\<ge>k. after m (foo g args (module_load w)) = Some R"
    and "\<exists>k. \<forall>m\<ge>k. after m (foo_Q g args w) = Some R"
proof -
  show "\<exists>k. \<forall>m\<ge>k. after m (foo g args (module_load w)) = Some R"
    using host_ok_module_load [OF wf] by (rule foo_settles) (simp add: body)
  have "host_ok False w" using wf by (simp add: host_ok_def)
  then show "\<exists>k. \<forall>m\<ge>k. after m (foo_Q g args w) = Some R"
    by (rule foo_Q_settles) (simp add: body)
qed

lemma belay_settles:
  assumes "wf_world w" and "\<not> awaitable v"
  shows "after 0 (belay v w) = None"
    and "\<exists>k. \<forall>m\<ge>k. after m (belay v w) = Some (Fulfilled v)"
proof -
  show "after 0 (belay v w) = None"
    by (simp add: after_def promise_state_def belay_def new_Promise_def new_cell_def nextTick_def)
  have f: "fst (belay v w) = Promise (length (heap w))" and "wf_world (snd (belay v w))"
    using pres_belay [OF pres_wf assms(1), of v] by simp_all
  then have h: "host_ok False (snd (belay v w))" by (simp add: host_ok_def)
  have "tracked False [length (heap w)] (Fulfilled v) (snd (belay v w))"
    using belay_tracking [OF assms, of False] unfolding tracking_def by (rule conjunct1)
  from tracked_settles [OF h this] show "\<exists>k. \<forall>m\<ge>k. after m (belay v w) = Some (Fulfilled v)"
    by (simp add: after_def f)
qed

lemma belayError_settles:
  assumes "wf_world w"
  shows "after 0 (belayError e w) = None"
    and "\<exists>k. \<forall>m\<ge>k. after m (belayError e w) = Some (Rejected e)"
proof -
  show "after 0 (belayError e w) = None"
    by (simp add: after_def promise_state_def belayError_def new_Promise_def new_cell_def nextTick_def)
  have f: "fst (belayError e w) = Promise (length (heap w))" and "wf_world (snd (belayError e w))"
    using pres_belayError [OF pres_wf assms(1), of e] by simp_all
  then have h: "host_ok False (snd (belayError e w))" by (simp add: host_ok_def)
  have "tracked False [length (heap w)] (Rejected e) (snd (belayError e w))"
    using belayError_tracking [OF assms, of False] unfolding tracking_def by (rule conjunct1)
  from tracked_settles [OF h this] show "\<exists>k. \<forall>m\<ge>k. after m (belayError e w) = Some (Rejected e)"
    by (simp add: after_def f)
qed

lemma wf_after_belay: "wf_world (snd (belay (Num 1) initial)) \<and> queue (snd (belay (Num 1) initial)) \<noteq> []"
  by (simp add: wf_world_def belay_def new_Promise_def new_cell_def nextTick_def initial_def)

lemma eventually_some:
  fixes f :: "nat \<Rightarrow> outcome option"
  shows "\<exists>k. \<forall>m\<ge>k. f m = Some oc \<Longrightarrow> \<exists>k. f k = Some oc"
  by (meson order_refl)

section \<open>The promise of a call is settled by its body, and by nothing else\<close>

text \<open>
  The promise the driver settles for a call starts with nothing that belongs to it. Every
  run of the driver for it leaves it settled, or pending with one continuation; every
  other job leaves it as it is. So the promise is pending whenever its body is run, and
  the outcome with which the body ends is the outcome of the promise.
\<close>

lemma sum_list_map_update:
  fixes f :: "'a \<Rightarrow> nat"
  shows "i < length xs \<Longrightarrow> sum_list (map f (xs[i := y])) + f (xs ! i) = sum_list (map f xs) + f y"
  by (induction xs arbitrary: i) (auto split: nat.splits)

lemma untouched_claims:
  "untouched p w \<longleftrightarrow> p < length (heap w) \<and> state (heap w ! p) = None \<and> claims p w = 0"
proof -
  have "(\<forall>i < length (heap w). own_reacts p w i = []) \<longleftrightarrow>
      (\<forall>c \<in> set (heap w). filter (\<lambda>r. reaction_target r = p) (waiting c) = [])"
    unfolding own_reacts_def all_set_conv_all_nth [of "heap w"] by simp
  then show ?thesis
    by (auto simp: untouched_def claims_def)
qed

lemma claims_new_cell [simp]: "claims p (snd (new_cell l s w)) = claims p w"
  by (simp add: claims_def own_jobs_def new_cell_def)

lemma claims_nextTick:
  "claims p (nextTick j w) = claims p w + (if job_target j = p then 1 else 0)"
  by (simp add: claims_def own_jobs_def nextTick_def)

lemma claims_promise_then:
  "claims p (promise_then x r w) =
     claims p w + (if x < length (heap w) \<and> reaction_target r = p then 1 else 0)"
proof (cases "x < length (heap w)")
  case False
  then show ?thesis by (simp add: promise_then_def)
next
  case True
  show ?thesis
  proof (cases "state (heap w ! x)")
    case (Some oc)
    then show ?thesis using True by (simp add: promise_then_def claims_def own_jobs_def)
  next
    case None
    have "sum_list (map (\<lambda>c. length (filter (\<lambda>r. reaction_target r = p) (waiting c)))
            ((heap w)[x := (heap w ! x)\<lparr>waiting := waiting (heap w ! x) @ [r]\<rparr>]))
          + length (filter (\<lambda>r. reaction_target r = p) (waiting (heap w ! x)))
        = sum_list (map (\<lambda>c. length (filter (\<lambda>r. reaction_target r = p) (waiting c))) (heap w))
          + length (filter (\<lambda>r. reaction_target r = p) (waiting (heap w ! x) @ [r]))"
      using sum_list_map_update [OF True,
          of "\<lambda>c. length (filter (\<lambda>r. reaction_target r = p) (waiting c))"
             "(heap w ! x)\<lparr>waiting := waiting (heap w ! x) @ [r]\<rparr>"]
      by simp
    then show ?thesis using True None by (simp add: promise_then_def claims_def own_jobs_def)
  qed
qed

lemma claims_settle [simp]: "claims p (settle x oc w) = claims p w"
proof (cases "x < length (heap w) \<and> state (heap w ! x) = None")
  case False
  then have "settle x oc w = w" by (auto simp: settle_def)
  then show ?thesis by simp
next
  case True
  then have x: "x < length (heap w)" by simp
  have "sum_list (map (\<lambda>c. length (filter (\<lambda>r. reaction_target r = p) (waiting c)))
            ((heap w)[x := (heap w ! x)\<lparr>state := Some oc, waiting := []\<rparr>]))
          + length (filter (\<lambda>r. reaction_target r = p) (waiting (heap w ! x)))
        = sum_list (map (\<lambda>c. length (filter (\<lambda>r. reaction_target r = p) (waiting c))) (heap w))"
    using sum_list_map_update [OF x,
        of "\<lambda>c. length (filter (\<lambda>r. reaction_target r = p) (waiting c))"
           "(heap w ! x)\<lparr>state := Some oc, waiting := []\<rparr>"]
    by simp
  then show ?thesis using True
    by (simp add: settle_def claims_def own_jobs_def filter_React)
qed

lemma state_settle_other:
  "x \<noteq> p \<Longrightarrow> state (heap (settle x oc w) ! p) = state (heap w ! p)"
  by (simp add: settle_def)

lemma state_promise_then [simp]:
  "state (heap (promise_then x r w) ! p) = state (heap w ! p)"
  by (cases "x = p") (auto simp: promise_then_def split: option.splits)

lemma state_nextTick [simp]: "state (heap (nextTick j w) ! p) = state (heap w ! p)"
  by (simp add: nextTick_def)

lemma state_new_cell:
  "p < length (heap w) \<Longrightarrow> state (heap (snd (new_cell l s w)) ! p) = state (heap w ! p)"
  by (simp add: new_cell_def nth_append)

lemma pres_owned: "preserved (owned p) (\<lambda>n x. x < n \<and> x \<noteq> p)"
  unfolding preserved_def
proof (intro conjI allI impI)
  fix w assume "owned p w"
  then show "length (heap w) \<noteq> p" by (auto simp: owned_def)
qed (auto simp: owned_def state_new_cell state_settle_other claims_promise_then claims_nextTick)


lemma settle_untouched:
  assumes "untouched p w"
  shows "owned p (settle p oc w)" and "state (heap (settle p oc w) ! p) = Some oc"
proof -
  show s: "state (heap (settle p oc w) ! p) = Some oc"
    using assms by (simp add: untouched_def settle_def)
  show "owned p (settle p oc w)"
    using assms s by (simp add: owned_def untouched_claims)
qed

lemma then_untouched:
  assumes "untouched p w"
  shows "owned p (promise_then x r w)"
  using assms by (simp add: owned_def untouched_claims claims_promise_then)

lemma resolve_untouched:
  assumes "untouched p w"
  shows "owned p (resolve p v w)"
    and "\<not> awaitable v \<Longrightarrow> state (heap (resolve p v w) ! p) = Some (Fulfilled v)"
  using assms
  by (auto simp: resolve_def reject_def awaitable_def settle_untouched then_untouched
      split: option.splits)

lemma drive_end:
  "untouched p w \<Longrightarrow>
     owned p (drive var g p w) \<and>
     (\<forall>R. ends var g w = Some R \<longrightarrow> state (heap (drive var g p w) ! p) = Some R)"
proof (induction g arbitrary: p w)
  case (Return v)
  then show ?case by (simp add: resolve_untouched)
next
  case (Throw e)
  then show ?case by (simp add: reject_def settle_untouched)
next
  case (Yield v kn kt)
  show ?case
  proof (cases "promise_addr v")
    case (Some q)
    with Yield.prems show ?thesis by (simp add: then_untouched)
  next
    case None
    show ?thesis
    proof (cases var)
      case Q_based
      have "untouched p (snd (new_cell Q (Some (Fulfilled v)) w))"
        using Yield.prems by (rule untouched_new_cell)
      then show ?thesis using None Q_based
        by (simp add: split_beta then_untouched)
    next
      case Bluebird_based
      obtain r w1 where h: "promiseFromYieldHandler (yieldHandlers w) v w = (r, w1)" by force
      have w1: "untouched p w1"
        using pres_promiseFromYieldHandler [OF pres_untouched Yield.prems, of "yieldHandlers w" v] h
        by simp
      show ?thesis
      proof (cases r)
        case None2: None
        have "owned p (drive var (kt (TypeError ''A value was yielded that could not be treated as a promise'')) p w1) \<and>
          (\<forall>R. ends var (kt (TypeError ''A value was yielded that could not be treated as a promise'')) w1 = Some R \<longrightarrow>
             state (heap (drive var (kt (TypeError ''A value was yielded that could not be treated as a promise'')) p w1) ! p) = Some R)"
          using w1 by (intro Yield.IH(2)) simp_all
        then show ?thesis using None Bluebird_based h None2 by simp
      next
        case (Some q)
        then show ?thesis using None Bluebird_based h w1
          by (simp add: then_untouched)
      qed
    qed
  qed
next
  case (Call_Promise_resolve v k)
  obtain y w1 where h: "Promise_resolve v w = (y, w1)" by force
  have "untouched p w1"
    using pres_Promise_resolve [OF pres_untouched Call_Promise_resolve.prems, of v] h by simp
  then have "owned p (drive var (k y) p w1) \<and>
      (\<forall>R. ends var (k y) w1 = Some R \<longrightarrow> state (heap (drive var (k y) p w1) ! p) = Some R)"
    by (intro Call_Promise_resolve.IH) simp_all
  then show ?case using h by simp
next
  case (Call_belay v k)
  obtain y w1 where h: "belay v w = (y, w1)" by force
  have "untouched p w1"
    using pres_belay [OF pres_untouched Call_belay.prems, of v] h by simp
  then have "owned p (drive var (k y) p w1) \<and>
      (\<forall>R. ends var (k y) w1 = Some R \<longrightarrow> state (heap (drive var (k y) p w1) ! p) = Some R)"
    by (intro Call_belay.IH) simp_all
  then show ?case using h by simp
next
  case (Call_belayError v k)
  obtain y w1 where h: "belayError v w = (y, w1)" by force
  have "untouched p w1"
    using pres_belayError [OF pres_untouched Call_belayError.prems, of v] h by simp
  then have "owned p (drive var (k y) p w1) \<and>
      (\<forall>R. ends var (k y) w1 = Some R \<longrightarrow> state (heap (drive var (k y) p w1) ! p) = Some R)"
    by (intro Call_belayError.IH) simp_all
  then show ?case using h by simp
next
  case (Call_new_Promise_noop k)
  obtain y w1 where h: "new_Promise (\<lambda>a w'. w') w = (y, w1)" by force
  have "untouched p w1"
    using pres_noop [OF pres_untouched Call_new_Promise_noop.prems] h by simp
  then have "owned p (drive var (k y) p w1) \<and>
      (\<forall>R. ends var (k y) w1 = Some R \<longrightarrow> state (heap (drive var (k y) p w1) ! p) = Some R)"
    by (intro Call_new_Promise_noop.IH) simp_all
  then show ?case using h by simp
next
  case (Call_foo g k)
  define r where "r = length (heap w)"
  define l where "l = (case var of Bluebird_based \<Rightarrow> Bluebird | Q_based \<Rightarrow> Q)"
  define w1 where "w1 = snd (new_cell l None w)"
  define w2 where "w2 = drive var g r w1"
  have p: "p < r" using Call_foo.prems by (simp add: untouched_def r_def)
  have u1: "untouched p w1" unfolding w1_def using Call_foo.prems by (rule untouched_new_cell)
  have u2: "untouched p w2"
    unfolding w2_def using pres_drive [OF pres_untouched, of p w1 r var g] u1 p
    by (simp add: w1_def r_def)
  show ?case
  proof (cases var)
    case Bluebird_based
    have eq: "drive var (Call_foo g k) p w = drive var (k (Promise r)) p w2"
      "ends var (Call_foo g k) w = ends var (k (Promise r)) w2"
      by (simp_all add: Bluebird_based w2_def w1_def r_def l_def new_cell_def)
    have "owned p (drive var (k (Promise r)) p w2) \<and>
      (\<forall>R. ends var (k (Promise r)) w2 = Some R \<longrightarrow>
         state (heap (drive var (k (Promise r)) p w2) ! p) = Some R)"
      using u2 by (intro Call_foo.IH(2)) simp_all
    then show ?thesis unfolding eq .
  next
    case Q_based
    obtain y w3 where h: "new_Promise (\<lambda>a. promise_then r (Forward a)) w2 = (y, w3)" by force
    have eq: "drive var (Call_foo g k) p w = drive var (k y) p w3"
      "ends var (Call_foo g k) w = ends var (k y) w3"
      using h by (simp_all add: Q_based w2_def w1_def r_def l_def new_cell_def)
    have "untouched p w3"
      using pres_forward [OF pres_untouched, of p w2 r] u2 h by simp
    then have "owned p (drive var (k y) p w3) \<and>
      (\<forall>R. ends var (k y) w3 = Some R \<longrightarrow> state (heap (drive var (k y) p w3) ! p) = Some R)"
      by (intro Call_foo.IH(2)) simp_all
    then show ?thesis unfolding eq .
  qed
qed

lemma run_job_drive: "\<exists>var g. \<forall>w. run_job j w = drive var g (job_target j) w"
proof (cases j)
  case (Tick_resolve p v)
  then have "\<forall>w. run_job j w = drive Q_based (Return v) (job_target j) w" by simp
  then show ?thesis by blast
next
  case (Tick_reject p e)
  then have "\<forall>w. run_job j w = drive Q_based (Throw e) (job_target j) w" by simp
  then show ?thesis by blast
next
  case (React r oc)
  show ?thesis
  proof (cases r)
    case (Forward p)
    show ?thesis
    proof (cases oc)
      case (Fulfilled v)
      then have "\<forall>w. run_job j w = drive Q_based (Return v) (job_target j) w"
        using React Forward by simp
      then show ?thesis by blast
    next
      case (Rejected e)
      then have "\<forall>w. run_job j w = drive Q_based (Throw e) (job_target j) w"
        using React Forward by simp
      then show ?thesis by blast
    qed
  next
    case (Resume var kn kt p)
    then have "\<forall>w. run_job j w = drive var (body_of oc kn kt) (job_target j) w"
      using React by (simp add: run_job_Resume)
    then show ?thesis by blast
  qed
qed

lemma claims_pop:
  assumes "queue w = j # js"
  shows "claims p w = (if job_target j = p then 1 else 0) + claims p (w\<lparr>queue := js\<rparr>)"
  using assms by (simp add: claims_def own_jobs_def)

lemma owned_pop:
  assumes "owned p w" and "queue w = j # js"
  shows "job_target j = p \<Longrightarrow> untouched p (w\<lparr>queue := js\<rparr>)"
    and "job_target j \<noteq> p \<Longrightarrow> owned p (w\<lparr>queue := js\<rparr>)"
proof -
  assume "job_target j = p"
  then have "claims p w = 1 + claims p (w\<lparr>queue := js\<rparr>)" using claims_pop [OF assms(2)] by simp
  then show "untouched p (w\<lparr>queue := js\<rparr>)"
    using assms(1) by (auto simp: owned_def untouched_claims)
next
  assume "job_target j \<noteq> p"
  then have "claims p w = claims p (w\<lparr>queue := js\<rparr>)" using claims_pop [OF assms(2)] by simp
  then show "owned p (w\<lparr>queue := js\<rparr>)"
    using assms(1) by (simp add: owned_def)
qed

lemma owned_step:
  assumes wf: "wf_world w" and ow: "owned p w" and qu: "queue w = j # js"
  shows "owned p (run_job j (w\<lparr>queue := js\<rparr>))"
proof (cases "job_target j = p")
  case True
  obtain var g where d: "\<forall>w. run_job j w = drive var g (job_target j) w"
    using run_job_drive by blast
  have "untouched p (w\<lparr>queue := js\<rparr>)" using ow qu True by (rule owned_pop(1))
  then show ?thesis using drive_end [of p "w\<lparr>queue := js\<rparr>" var g] d True by simp
next
  case False
  have "owned p (w\<lparr>queue := js\<rparr>)" using ow qu False by (rule owned_pop(2))
  moreover have "job_target j < length (heap (w\<lparr>queue := js\<rparr>))" using wf_pop [OF wf qu] by simp
  ultimately show ?thesis
    using pres_run_job [OF pres_owned, where p1 = p and w = "w\<lparr>queue := js\<rparr>" and j = j] False
    by simp
qed

lemma owned_run:
  assumes "wf_world w" and "owned p w"
  shows "owned p (run n w)"
  using assms
proof (induction n arbitrary: w)
  case 0
  then show ?case by simp
next
  case (Suc n)
  show ?case
  proof (cases "queue w")
    case Nil
    then show ?thesis using Suc.prems by simp
  next
    case (Cons j js)
    have "owned p (run_job j (w\<lparr>queue := js\<rparr>))" using Suc.prems Cons by (rule owned_step)
    moreover have "wf_world (run_job j (w\<lparr>queue := js\<rparr>))"
      using wf_run [OF Suc.prems(1), of "Suc 0"] Cons by simp
    ultimately show ?thesis using Cons Suc.IH by simp
  qed
qed

lemma owned_pending:
  assumes "owned p w" and "0 < claims p w"
  shows "state (heap w ! p) = None"
  using assms by (auto simp: owned_def)

lemma resumed_ends:
  assumes wf: "wf_world w" and ow: "owned p w"
    and qu: "queue (run n w) = React (Resume var kn kt p) oc # js"
    and en: "ends var (body_of oc kn kt) ((run n w)\<lparr>queue := js\<rparr>) = Some R"
    and m: "n < m"
  shows "p < length (heap (run m w)) \<and> state (heap (run m w) ! p) = Some R"
proof -
  define wn where "wn = run n w"
  have own: "owned p wn" unfolding wn_def using wf ow by (rule owned_run)
  have "untouched p (wn\<lparr>queue := js\<rparr>)"
    using own qu [folded wn_def] by (rule owned_pop(1)) simp
  then have "state (heap (drive var (body_of oc kn kt) p (wn\<lparr>queue := js\<rparr>)) ! p) = Some R"
    using drive_end [of p "wn\<lparr>queue := js\<rparr>" var "body_of oc kn kt"] en by (simp add: wn_def)
  moreover have "run (Suc 0) wn = drive var (body_of oc kn kt) p (wn\<lparr>queue := js\<rparr>)"
    using qu by (simp add: wn_def run_job_Resume)
  ultimately have s: "state (heap (run (Suc n) w) ! p) = Some R"
    using run_add [of n "Suc 0" w] by (simp add: wn_def)
  have "owned p (run (Suc n) w)" using wf ow by (rule owned_run)
  then have l: "p < length (heap (run (Suc n) w))" by (simp add: owned_def)
  have "run m w = run (m - Suc n) (run (Suc n) w)"
    using run_add [of "Suc n" "m - Suc n" w] m by simp
  then show ?thesis using settled_run [OF l s, of "m - Suc n"] by simp
qed



lemma foo_Q_world:
  assumes "wf_world w"
  shows "snd (foo_Q g args w) =
     promise_then (length (heap w)) (Forward (length (heap (snd (Q_async g args w)))))
       (snd (new_cell (Promise_global (snd (Q_async g args w))) None (snd (Q_async g args w))))"
  using Q_async_facts(1) [OF assms, of g args]
  by (simp add: foo_Q_def split_beta new_Promise_def new_cell_def)

lemma foo_Q_owned:
  assumes "wf_world w"
  shows "owned (length (heap w)) (snd (foo_Q g args w))"
    and "ends Q_based (g args) (snd (new_cell Q None w)) = Some R \<Longrightarrow>
           state (heap (snd (foo_Q g args w)) ! length (heap w)) = Some R"
proof -
  define q where "q = length (heap w)"
  define w1 where "w1 = snd (new_cell Q None w)"
  define w2 where "w2 = drive Q_based (g args) q w1"
  have e: "snd (Q_async g args w) = w2"
    by (simp add: Q_async_def w1_def w2_def q_def new_cell_def)
  have u: "untouched q w1" unfolding q_def w1_def using assms by (rule untouched_fresh)
  note d = drive_end [OF u, of Q_based "g args", folded w2_def]
  have q2: "q < length (heap w2)" using d by (simp add: owned_def)
  have w': "snd (foo_Q g args w) =
      promise_then q (Forward (length (heap w2))) (snd (new_cell (Promise_global w2) None w2))"
    using foo_Q_world [OF assms, of g args] by (simp add: e q_def)
  have "owned q (snd (new_cell (Promise_global w2) None w2))"
    using d by (intro preservedD(1) [OF pres_owned]) simp_all
  then show "owned (length (heap w)) (snd (foo_Q g args w))"
    unfolding w' q_def [symmetric] using q2
    by (intro preservedD(3) [OF pres_owned]) simp_all
  show "ends Q_based (g args) (snd (new_cell Q None w)) = Some R \<Longrightarrow>
           state (heap (snd (foo_Q g args w)) ! length (heap w)) = Some R"
    unfolding w' q_def [symmetric] using d q2 by (simp add: state_new_cell w1_def)
qed

lemma foo_Q_frame:
  fixes g :: generatorFunction and args :: "val list" and w :: world
  assumes "wf_world w"
  defines "wq \<equiv> snd (Q_async g args w)"
  defines "a \<equiv> length (heap (snd (Q_async g args w)))"
  defines "w' \<equiv> snd (foo_Q g args w)"
  shows "length (heap w') = Suc a"
    and "state (heap w' ! a) = None"
    and "\<forall>i < a. state (heap w' ! i) = state (heap wq ! i) \<and>
           maker (heap w' ! i) = maker (heap wq ! i) \<and>
           filter (\<lambda>r. reaction_target r \<noteq> a) (waiting (heap w' ! i)) = waiting (heap wq ! i)"
    and "filter (\<lambda>j. job_target j \<noteq> a) (queue w') = queue wq"
proof -
  define q where "q = length (heap w)"
  have wfq: "wf_world wq" unfolding wq_def using assms(1) by (rule Q_async_facts(2))
  have qa: "q < a" using Q_async_facts(3) [OF assms(1), of g args] by (simp add: q_def a_def)
  have w': "w' = promise_then q (Forward a) (snd (new_cell (Promise_global wq) None wq))"
    unfolding w'_def wq_def a_def q_def using assms(1) by (rule foo_Q_world)
  have la: "length (heap wq) = a" by (simp add: a_def wq_def)
  have j: "filter (\<lambda>j. job_target j \<noteq> a) (queue wq) = queue wq"
    using wfq la unfolding wf_world_iff by (fastforce simp: filter_id_conv)
  have r: "filter (\<lambda>r. reaction_target r \<noteq> a) (waiting (heap wq ! i)) = waiting (heap wq ! i)"
    if "i < a" for i
    using wfq la that unfolding wf_world_iff by (fastforce simp: filter_id_conv)
  show "length (heap w') = Suc a" by (simp add: w' la)
  show "state (heap w' ! a) = None"
    unfolding w' using la by (auto simp: new_cell_def nth_append)
  show "filter (\<lambda>j. job_target j \<noteq> a) (queue w') = queue wq"
    unfolding w' using j qa la
    by (auto simp: promise_then_def new_cell_def nth_append split: option.splits)
  show "\<forall>i < a. state (heap w' ! i) = state (heap wq ! i) \<and>
           maker (heap w' ! i) = maker (heap wq ! i) \<and>
           filter (\<lambda>r. reaction_target r \<noteq> a) (waiting (heap w' ! i)) = waiting (heap wq ! i)"
  proof (intro allI impI)
    fix i assume i: "i < a"
    show "state (heap w' ! i) = state (heap wq ! i) \<and>
           maker (heap w' ! i) = maker (heap wq ! i) \<and>
           filter (\<lambda>r. reaction_target r \<noteq> a) (waiting (heap w' ! i)) = waiting (heap wq ! i)"
      unfolding w' using r [OF i] i qa la
      by (auto simp: promise_then_def new_cell_def nth_append nth_list_update split: option.splits)
  qed
qed

lemma foo_Q_ends:
  assumes wf: "wf_world w"
  shows "ends Q_based (g args) (snd (new_cell Q None w)) = Some R \<Longrightarrow>
           \<exists>k. \<forall>m\<ge>k. after m (foo_Q g args w) = Some R"
    and "queue (run n (snd (foo_Q g args w))) = React (Resume var kn kt (length (heap w))) oc # js \<Longrightarrow>
         ends var (body_of oc kn kt) ((run n (snd (foo_Q g args w)))\<lparr>queue := js\<rparr>) = Some R \<Longrightarrow>
         \<exists>k. \<forall>m\<ge>k. after m (foo_Q g args w) = Some R"
    and "0 < claims (length (heap w)) (run n (snd (foo_Q g args w))) \<Longrightarrow>
         after n (foo_Q g args w) = None"
proof -
  define q where "q = length (heap w)"
  define a where "a = length (heap (snd (Q_async g args w)))"
  define w' where "w' = snd (foo_Q g args w)"
  note f = foo_Q_facts [OF wf, of g args, folded q_def a_def w'_def]
  note o = foo_Q_owned [OF wf, of g args, folded q_def w'_def]
  have inv: "wf_world (run k w') \<and> linked a q (run k w')" for k
    using linked_run [OF f(4,5)] by simp
  have ow: "owned q (run k w')" for k using f(4) o(1) by (rule owned_run)
  have later: "\<exists>k. \<forall>m\<ge>k. after m (foo_Q g args w) = Some R"
    if s: "state (heap (run n0 w') ! q) = Some R" for n0
  proof -
    obtain k where k: "\<forall>m\<ge>k. a < length (heap (run m (run n0 w'))) \<and>
        state (heap (run m (run n0 w')) ! a) = Some R"
      using linked_settles inv [of n0] s by blast
    have "\<forall>m\<ge>n0 + k. after m (foo_Q g args w) = Some R"
    proof (intro allI impI)
      fix m assume "n0 + k \<le> m"
      then have "run m w' = run (m - n0) (run n0 w')" "k \<le> m - n0"
        using run_add [of n0 "m - n0" w'] by simp_all
      then show "after m (foo_Q g args w) = Some R"
        using k f(1) by (simp add: after_def promise_state_def w'_def)
    qed
    then show ?thesis by blast
  qed
  {
    assume "ends Q_based (g args) (snd (new_cell Q None w)) = Some R"
    then have "state (heap (run 0 w') ! q) = Some R" using o(2) by simp
    then show "\<exists>k. \<forall>m\<ge>k. after m (foo_Q g args w) = Some R" by (rule later)
  }
  {
    assume "queue (run n (snd (foo_Q g args w))) = React (Resume var kn kt (length (heap w))) oc # js"
      and "ends var (body_of oc kn kt) ((run n (snd (foo_Q g args w)))\<lparr>queue := js\<rparr>) = Some R"
    then have "state (heap (run (Suc n) w') ! q) = Some R"
      using resumed_ends [OF f(4) o(1), of n var kn kt oc js R "Suc n"]
      by (simp add: w'_def q_def)
    then show "\<exists>k. \<forall>m\<ge>k. after m (foo_Q g args w) = Some R" by (rule later)
  }
  {
    assume "0 < claims (length (heap w)) (run n (snd (foo_Q g args w)))"
    then have "state (heap (run n w') ! q) = None"
      using ow [of n] by (intro owned_pending) (simp_all add: q_def w'_def)
    then have "state (heap (run n w') ! a) = None"
      using inv [of n] by (cases "state (heap (run n w') ! a)") (simp_all add: linked_def)
    then show "after n (foo_Q g args w) = None"
      using f(1) by (simp add: after_def promise_state_def w'_def)
  }
qed






















section \<open>Plain values\<close>

text \<open>
  C1. A wrapped generator that yields a plain value \<open>v\<close> once and returns what the yield
  gave back: in every well-formed state of the host, whatever else is queued or pending,
  the promise of the wrapper call is fulfilled with \<open>v\<close> itself from some turn of the
  event loop on. This holds for the exported \<open>foo\<close> once the module is loaded (its yield
  handler is what accepts the plain value) and for the earlier wrapper around \<open>Q.async\<close>.
  From an idle event loop the promise is fulfilled after at most two turns.
\<close>

theorem plain_value_fulfils:
  assumes "wf_world w" and "\<not> awaitable v"
  shows "(\<exists>k. \<forall>m\<ge>k. after m (foo (\<lambda>a. gen_plain v) args (module_load w)) = Some (Fulfilled v)) \<and>
         (\<exists>k. \<forall>m\<ge>k. after m (foo_Q (\<lambda>a. gen_plain v) args w) = Some (Fulfilled v)) \<and>
         (queue w = [] \<longrightarrow>
            (\<forall>n\<ge>2. after n (foo (\<lambda>a. gen_plain v) args (module_load w)) = Some (Fulfilled v) \<and>
                    after n (foo_Q (\<lambda>a. gen_plain v) args w) = Some (Fulfilled v)))"
proof -
  have b: "\<exists>qs. tracking hb (p # qs) (Fulfilled v) (drive var (gen_plain v) p w')"
    if "host_ok hb w'" "untouched p w'" "var = Bluebird_based \<longrightarrow> hb" for hb var p w'
    using body_plain [OF that, of "gen_plain v"] assms(2) by (simp add: gen_plain_def)
  note s = both_settle [OF assms(1), of "Fulfilled v" "\<lambda>a. gen_plain v" args, OF b]
  have i: "\<forall>n\<ge>2. after n (foo (\<lambda>a. gen_plain v) args (module_load w)) = Some (Fulfilled v) \<and>
                 after n (foo_Q (\<lambda>a. gen_plain v) args w) = Some (Fulfilled v)"
    if q: "queue w = []"
  proof (intro allI impI)
    fix n :: nat assume n: "2 \<le> n"
    obtain hs where hs: "yieldHandlers (module_load w) = Resolve_handler # hs"
      using yieldHandlers_module_load by blast
    have v: "promise_addr v = None" using assms(2) by (simp add: awaitable_def)
    have "done_at (Suc 0) (foo (\<lambda>a. gen_plain v) args (module_load w)) (Fulfilled v)"
      using q hs v by (intro plain_B) (simp_all add: queue_module_load)
    moreover have "done_at (Suc (Suc 0)) (foo_Q (\<lambda>a. gen_plain v) args w) (Fulfilled v)"
      using q v by (rule plain_Q)
    ultimately show "after n (foo (\<lambda>a. gen_plain v) args (module_load w)) = Some (Fulfilled v) \<and>
        after n (foo_Q (\<lambda>a. gen_plain v) args w) = Some (Fulfilled v)"
      using n by (simp add: done_at_after)
  qed
  from s i show ?thesis by blast
qed

theorem plain_value_fulfils_witness:
  "wf_world (snd (belay (Num 1) initial)) \<and> queue (snd (belay (Num 1) initial)) \<noteq> [] \<and>
   \<not> awaitable (Num 3) \<and>
   (\<exists>k. after k (foo (\<lambda>a. gen_plain (Num 3)) [] (module_load (snd (belay (Num 1) initial))))
      = Some (Fulfilled (Num 3))) \<and>
   (\<exists>k. after k (foo_Q (\<lambda>a. gen_plain (Num 3)) [] (snd (belay (Num 1) initial)))
      = Some (Fulfilled (Num 3))) \<and>
   after 2 (foo (\<lambda>a. gen_plain (Num 3)) [] (module_load initial)) = Some (Fulfilled (Num 3)) \<and>
   after 2 (foo_Q (\<lambda>a. gen_plain (Num 3)) [] initial) = Some (Fulfilled (Num 3))"
proof -
  have v: "\<not> awaitable (Num 3)" by (simp add: awaitable_def)
  have wf: "wf_world initial" by (simp add: wf_world_def initial_def)
  note t = plain_value_fulfils [OF wf_after_belay [THEN conjunct1] v, of "[]"]
  note u = plain_value_fulfils [OF wf v, of "[]"]
  have 1: "\<exists>k. after k (foo (\<lambda>a. gen_plain (Num 3)) [] (module_load (snd (belay (Num 1) initial))))
      = Some (Fulfilled (Num 3))"
    using t [THEN conjunct1] by (rule eventually_some)
  have 2: "\<exists>k. after k (foo_Q (\<lambda>a. gen_plain (Num 3)) [] (snd (belay (Num 1) initial)))
      = Some (Fulfilled (Num 3))"
    using t [THEN conjunct2, THEN conjunct1] by (rule eventually_some)
  have 3: "after 2 (foo (\<lambda>a. gen_plain (Num 3)) [] (module_load initial)) = Some (Fulfilled (Num 3)) \<and>
      after 2 (foo_Q (\<lambda>a. gen_plain (Num 3)) [] initial) = Some (Fulfilled (Num 3))"
    using u [THEN conjunct2, THEN conjunct2] by (simp add: initial_def)
  from wf_after_belay v 1 2 3 show ?thesis by simp
qed

section \<open>Awaitables that fulfil\<close>

text \<open>
  C2. \<open>Promise.resolve(v)\<close> is fulfilled with \<open>v\<close> when it is yielded; \<open>belay(v)\<close> is
  pending when it is yielded and fulfilled with \<open>v\<close> on a later turn. A wrapped generator
  that yields either of them once and returns what the yield gave back has its wrapper
  promise fulfilled with \<open>v\<close> itself from some turn on, in every well-formed state of the
  host; from an idle event loop, after at most three turns. The value \<open>v\<close> is any value
  that is not itself an awaitable (no awaitable is fulfilled with an awaitable: resolving
  with one adopts its state).
\<close>

theorem awaited_value_fulfils:
  assumes "wf_world w" and "\<not> awaitable v"
  shows "after 0 (Promise_resolve v w) = Some (Fulfilled v) \<and>
         after 0 (belay v w) = None \<and>
         (\<exists>k. \<forall>m\<ge>k. after m (belay v w) = Some (Fulfilled v)) \<and>
         (\<exists>k. \<forall>m\<ge>k. after m (foo (\<lambda>a. gen_immediate v) args (module_load w)) = Some (Fulfilled v)) \<and>
         (\<exists>k. \<forall>m\<ge>k. after m (foo (\<lambda>a. gen_async v) args (module_load w)) = Some (Fulfilled v)) \<and>
         (\<exists>k. \<forall>m\<ge>k. after m (foo_Q (\<lambda>a. gen_immediate v) args w) = Some (Fulfilled v)) \<and>
         (\<exists>k. \<forall>m\<ge>k. after m (foo_Q (\<lambda>a. gen_async v) args w) = Some (Fulfilled v)) \<and>
         (queue w = [] \<longrightarrow>
            after 1 (belay v w) = Some (Fulfilled v) \<and>
            (\<forall>n\<ge>3. after n (foo (\<lambda>a. gen_immediate v) args (module_load w)) = Some (Fulfilled v) \<and>
                    after n (foo (\<lambda>a. gen_async v) args (module_load w)) = Some (Fulfilled v) \<and>
                    after n (foo_Q (\<lambda>a. gen_immediate v) args w) = Some (Fulfilled v) \<and>
                    after n (foo_Q (\<lambda>a. gen_async v) args w) = Some (Fulfilled v)))"
proof -
  have v: "promise_addr v = None" using assms(2) by (simp add: awaitable_def)
  have bi: "\<exists>qs. tracking hb (p # qs) (Fulfilled v) (drive var (gen_immediate v) p w')"
    if "host_ok hb w'" "untouched p w'" "var = Bluebird_based \<longrightarrow> hb" for hb var p w'
    using that assms(2) by (rule body_immediate)
  have ba: "\<exists>qs. tracking hb (p # qs) (Fulfilled v) (drive var (gen_async v) p w')"
    if "host_ok hb w'" "untouched p w'" "var = Bluebird_based \<longrightarrow> hb" for hb var p w'
    using that assms(2) by (rule body_async)
  note si = both_settle [OF assms(1), of "Fulfilled v" "\<lambda>a. gen_immediate v" args, OF bi]
  note sa = both_settle [OF assms(1), of "Fulfilled v" "\<lambda>a. gen_async v" args, OF ba]
  have i: "after 1 (belay v w) = Some (Fulfilled v) \<and>
      (\<forall>n\<ge>3. after n (foo (\<lambda>a. gen_immediate v) args (module_load w)) = Some (Fulfilled v) \<and>
              after n (foo (\<lambda>a. gen_async v) args (module_load w)) = Some (Fulfilled v) \<and>
              after n (foo_Q (\<lambda>a. gen_immediate v) args w) = Some (Fulfilled v) \<and>
              after n (foo_Q (\<lambda>a. gen_async v) args w) = Some (Fulfilled v))"
    if q0: "queue w = []"
  proof -
    obtain hs where hs: "yieldHandlers (module_load w) = Resolve_handler # hs"
      using yieldHandlers_module_load by blast
    have q: "queue (module_load w) = []" using q0 by (simp add: queue_module_load)
    have 1: "after 1 (belay v w) = Some (Fulfilled v)"
      using belay_states(2) [OF q0 v] by (rule done_at_after) simp
    have 2: "after n (foo (\<lambda>a. gen_immediate v) args (module_load w)) = Some (Fulfilled v)"
      if "3 \<le> n" for n
      using immediate_B [OF q hs v] by (rule done_at_after) (use that in simp)
    have 3: "after n (foo (\<lambda>a. gen_async v) args (module_load w)) = Some (Fulfilled v)"
      if "3 \<le> n" for n
      using async_B [OF q hs v] by (rule done_at_after) (use that in simp)
    have 4: "after n (foo_Q (\<lambda>a. gen_immediate v) args w) = Some (Fulfilled v)"
      if "3 \<le> n" for n
      using immediate_Q [OF q0 v] by (rule done_at_after) (use that in simp)
    have 5: "after n (foo_Q (\<lambda>a. gen_async v) args w) = Some (Fulfilled v)"
      if "3 \<le> n" for n
      using async_Q [OF q0 v] by (rule done_at_after) (use that in simp)
    show ?thesis using 1 2 3 4 5 by simp
  qed
  from Promise_resolve_state [OF v, of w] belay_settles [OF assms] si sa i
  show ?thesis by blast
qed

theorem awaited_value_fulfils_witness:
  "wf_world (snd (belay (Num 1) initial)) \<and> queue (snd (belay (Num 1) initial)) \<noteq> [] \<and>
   \<not> awaitable (Arr [Num 1, Num 2, Num 3]) \<and>
   (\<exists>k. after k (foo (\<lambda>a. gen_async (Arr [Num 1, Num 2, Num 3])) []
       (module_load (snd (belay (Num 1) initial)))) = Some (Fulfilled (Arr [Num 1, Num 2, Num 3]))) \<and>
   (\<exists>k. after k (foo_Q (\<lambda>a. gen_immediate (Arr [Num 1, Num 2, Num 3])) []
       (snd (belay (Num 1) initial))) = Some (Fulfilled (Arr [Num 1, Num 2, Num 3]))) \<and>
   after 1 (belay (Arr [Num 1, Num 2, Num 3]) initial) = Some (Fulfilled (Arr [Num 1, Num 2, Num 3])) \<and>
   after 3 (foo (\<lambda>a. gen_immediate (Arr [Num 1, Num 2, Num 3])) [] (module_load initial))
     = Some (Fulfilled (Arr [Num 1, Num 2, Num 3])) \<and>
   after 3 (foo (\<lambda>a. gen_async (Arr [Num 1, Num 2, Num 3])) [] (module_load initial))
     = Some (Fulfilled (Arr [Num 1, Num 2, Num 3])) \<and>
   after 3 (foo_Q (\<lambda>a. gen_async (Arr [Num 1, Num 2, Num 3])) [] initial)
     = Some (Fulfilled (Arr [Num 1, Num 2, Num 3]))"
proof -
  have v: "\<not> awaitable (Arr [Num 1, Num 2, Num 3])" by (simp add: awaitable_def)
  have wf: "wf_world initial" by (simp add: wf_world_def initial_def)
  note t = awaited_value_fulfils [OF wf_after_belay [THEN conjunct1] v, of "[]"]
  note u = awaited_value_fulfils [OF wf v, of "[]"]
  have 1: "\<exists>k. after k (foo (\<lambda>a. gen_async (Arr [Num 1, Num 2, Num 3])) []
       (module_load (snd (belay (Num 1) initial)))) = Some (Fulfilled (Arr [Num 1, Num 2, Num 3]))"
    using t by (intro eventually_some) (elim conjE)
  have 2: "\<exists>k. after k (foo_Q (\<lambda>a. gen_immediate (Arr [Num 1, Num 2, Num 3])) []
       (snd (belay (Num 1) initial))) = Some (Fulfilled (Arr [Num 1, Num 2, Num 3]))"
    using t by (intro eventually_some) (elim conjE)
  have "queue initial = []" by (simp add: initial_def)
  then have 3: "after 1 (belay (Arr [Num 1, Num 2, Num 3]) initial) = Some (Fulfilled (Arr [Num 1, Num 2, Num 3])) \<and>
      after 3 (foo (\<lambda>a. gen_immediate (Arr [Num 1, Num 2, Num 3])) [] (module_load initial))
        = Some (Fulfilled (Arr [Num 1, Num 2, Num 3])) \<and>
      after 3 (foo (\<lambda>a. gen_async (Arr [Num 1, Num 2, Num 3])) [] (module_load initial))
        = Some (Fulfilled (Arr [Num 1, Num 2, Num 3])) \<and>
      after 3 (foo_Q (\<lambda>a. gen_async (Arr [Num 1, Num 2, Num 3])) [] initial)
        = Some (Fulfilled (Arr [Num 1, Num 2, Num 3]))"
    using u by simp
  from wf_after_belay v 1 2 3 show ?thesis by simp
qed

section \<open>Rejections caught in the body\<close>

text \<open>
  C3. \<open>belayError(e)\<close> is pending when it is yielded and rejected with \<open>e\<close> on a later
  turn. When the yield stands inside a \<open>try/catch\<close> with handler \<open>h\<close>, the wrapper promise
  settles as the handler run on \<open>e\<close> ends: the handler is given \<open>e\<close> itself, and the
  outcome is the one of a body that raises \<open>e\<close> itself inside the same \<open>try/catch\<close>. In
  particular a handler that returns fulfils the wrapper promise: the error goes no
  further. The handler is any body that suspends on plain values only; the state of the
  host is any well-formed one. From an idle event loop the promise is settled three turns
  after the handler's last suspension at the latest.
\<close>

theorem rejection_caught_locally:
  assumes "wf_world w" and "plain_gen (h e)"
  shows "after 0 (belayError e w) = None \<and>
         (\<exists>k. \<forall>m\<ge>k. after m (belayError e w) = Some (Rejected e)) \<and>
         (\<exists>k. \<forall>m\<ge>k. after m (foo (\<lambda>a. gen_catch e h) args (module_load w)) = Some (result (h e))) \<and>
         (\<exists>k. \<forall>m\<ge>k. after m (foo_Q (\<lambda>a. gen_catch e h) args w) = Some (result (h e))) \<and>
         (\<exists>k. \<forall>m\<ge>k. after m (foo (\<lambda>a. gen_try_throw e h) args (module_load w)) = Some (result (h e))) \<and>
         (\<exists>k. \<forall>m\<ge>k. after m (foo_Q (\<lambda>a. gen_try_throw e h) args w) = Some (result (h e))) \<and>
         (\<forall>f. h = (\<lambda>x. Return (f x)) \<longrightarrow>
            (\<exists>k. \<forall>m\<ge>k. after m (foo (\<lambda>a. gen_catch e h) args (module_load w)) = Some (Fulfilled (f e))) \<and>
            (\<exists>k. \<forall>m\<ge>k. after m (foo_Q (\<lambda>a. gen_catch e h) args w) = Some (Fulfilled (f e)))) \<and>
         (queue w = [] \<longrightarrow>
            after 1 (belayError e w) = Some (Rejected e) \<and>
            (\<forall>n\<ge>yields (h e) + 3.
               after n (foo (\<lambda>a. gen_catch e h) args (module_load w)) = Some (result (h e)) \<and>
               after n (foo_Q (\<lambda>a. gen_catch e h) args w) = Some (result (h e)) \<and>
               after n (foo (\<lambda>a. gen_try_throw e h) args (module_load w)) = Some (result (h e)) \<and>
               after n (foo_Q (\<lambda>a. gen_try_throw e h) args w) = Some (result (h e))))"
proof -
  have bc: "\<exists>qs. tracking hb (p # qs) (result (h e)) (drive var (gen_catch e h) p w')"
    if "host_ok hb w'" "untouched p w'" "var = Bluebird_based \<longrightarrow> hb" for hb var p w'
    using that assms(2) by (rule body_catch)
  have bt: "\<exists>qs. tracking hb (p # qs) (result (h e)) (drive var (gen_try_throw e h) p w')"
    if "host_ok hb w'" "untouched p w'" "var = Bluebird_based \<longrightarrow> hb" for hb var p w'
    unfolding gen_try_throw_def using that assms(2) by (rule body_plain)
  note sc = both_settle [OF assms(1), of "result (h e)" "\<lambda>a. gen_catch e h" args, OF bc]
  note st = both_settle [OF assms(1), of "result (h e)" "\<lambda>a. gen_try_throw e h" args, OF bt]
  have r: "\<forall>f. h = (\<lambda>x. Return (f x)) \<longrightarrow>
            (\<exists>k. \<forall>m\<ge>k. after m (foo (\<lambda>a. gen_catch e h) args (module_load w)) = Some (Fulfilled (f e))) \<and>
            (\<exists>k. \<forall>m\<ge>k. after m (foo_Q (\<lambda>a. gen_catch e h) args w) = Some (Fulfilled (f e)))"
  proof (intro allI impI)
    fix f assume "h = (\<lambda>x. Return (f x))"
    then have "result (h e) = Fulfilled (f e)" by simp
    with sc show "(\<exists>k. \<forall>m\<ge>k. after m (foo (\<lambda>a. gen_catch e h) args (module_load w)) = Some (Fulfilled (f e))) \<and>
            (\<exists>k. \<forall>m\<ge>k. after m (foo_Q (\<lambda>a. gen_catch e h) args w) = Some (Fulfilled (f e)))"
      by simp
  qed
  have i: "after 1 (belayError e w) = Some (Rejected e) \<and>
            (\<forall>n\<ge>yields (h e) + 3.
               after n (foo (\<lambda>a. gen_catch e h) args (module_load w)) = Some (result (h e)) \<and>
               after n (foo_Q (\<lambda>a. gen_catch e h) args w) = Some (result (h e)) \<and>
               after n (foo (\<lambda>a. gen_try_throw e h) args (module_load w)) = Some (result (h e)) \<and>
               after n (foo_Q (\<lambda>a. gen_try_throw e h) args w) = Some (result (h e)))"
    if q0: "queue w = []"
  proof -
    obtain hs where hs: "yieldHandlers (module_load w) = Resolve_handler # hs"
      using yieldHandlers_module_load by blast
    have q: "queue (module_load w) = []" using q0 by (simp add: queue_module_load)
    have 1: "after 1 (belayError e w) = Some (Rejected e)"
      using belayError_states(2) [OF q0] by (rule done_at_after) simp
    have 2: "after n (foo (\<lambda>a. gen_catch e h) args (module_load w)) = Some (result (h e))"
      if "yields (h e) + 3 \<le> n" for n
      using catch_gen_B [where h = h and e = e, OF q hs assms(2)]
      by (rule done_at_after) (use that in arith)
    have 3: "after n (foo_Q (\<lambda>a. gen_catch e h) args w) = Some (result (h e))"
      if "yields (h e) + 3 \<le> n" for n
      using catch_gen_Q [where h = h and e = e, OF q0 assms(2)]
      by (rule done_at_after) (use that in arith)
    have 4: "after n (foo (\<lambda>a. gen_try_throw e h) args (module_load w)) = Some (result (h e))"
      if "yields (h e) + 3 \<le> n" for n
      unfolding gen_try_throw_def
      using foo_plain_gen [OF assms(2) q hs] by (rule done_at_after) (use that in arith)
    have 5: "after n (foo_Q (\<lambda>a. gen_try_throw e h) args w) = Some (result (h e))"
      if "yields (h e) + 3 \<le> n" for n
      unfolding gen_try_throw_def
      using foo_Q_plain_gen [OF assms(2) q0] by (rule done_at_after) (use that in arith)
    show ?thesis using 1 2 3 4 5 by simp
  qed
  from belayError_settles [OF assms(1), of e] sc st r i show ?thesis by blast
qed

theorem rejection_caught_locally_witness:
  "wf_world (snd (belay (Num 1) initial)) \<and> queue (snd (belay (Num 1) initial)) \<noteq> [] \<and>
   plain_gen (Return (Error 1 ''Expected error.'')) \<and>
   (\<exists>k. after k (foo (\<lambda>a. gen_catch (Error 1 ''Expected error.'') Return) []
       (module_load (snd (belay (Num 1) initial)))) = Some (Fulfilled (Error 1 ''Expected error.''))) \<and>
   (\<exists>k. after k (foo_Q (\<lambda>a. gen_catch (Error 1 ''Expected error.'') Return) []
       (snd (belay (Num 1) initial))) = Some (Fulfilled (Error 1 ''Expected error.''))) \<and>
   after 1 (belayError (Error 1 ''Expected error.'') initial)
     = Some (Rejected (Error 1 ''Expected error.'')) \<and>
   after 3 (foo (\<lambda>a. gen_catch (Error 1 ''Expected error.'') Return) []
       (module_load initial)) = Some (Fulfilled (Error 1 ''Expected error.'')) \<and>
   after 3 (foo_Q (\<lambda>a. gen_catch (Error 1 ''Expected error.'') Return) [] initial)
     = Some (Fulfilled (Error 1 ''Expected error.'')) \<and>
   after 3 (foo (\<lambda>a. gen_try_throw (Error 1 ''Expected error.'') Return) []
       (module_load initial)) = Some (Fulfilled (Error 1 ''Expected error.''))"
proof -
  have v: "plain_gen (Return (Error 1 ''Expected error.''))" by (simp add: awaitable_def)
  have wf: "wf_world initial" by (simp add: wf_world_def initial_def)
  note t = rejection_caught_locally [where h = Return and e = "Error 1 ''Expected error.''"
      and args = "[]", OF wf_after_belay [THEN conjunct1] v]
  note u = rejection_caught_locally [where h = Return and e = "Error 1 ''Expected error.''"
      and args = "[]", OF wf v]
  have 1: "\<exists>k. after k (foo (\<lambda>a. gen_catch (Error 1 ''Expected error.'') Return) []
       (module_load (snd (belay (Num 1) initial)))) = Some (Fulfilled (Error 1 ''Expected error.''))"
    using t by (intro eventually_some) simp
  have 2: "\<exists>k. after k (foo_Q (\<lambda>a. gen_catch (Error 1 ''Expected error.'') Return) []
       (snd (belay (Num 1) initial))) = Some (Fulfilled (Error 1 ''Expected error.''))"
    using t by (intro eventually_some) simp
  have "queue initial = []" by (simp add: initial_def)
  then have 3: "after 1 (belayError (Error 1 ''Expected error.'') initial)
       = Some (Rejected (Error 1 ''Expected error.'')) \<and>
     after 3 (foo (\<lambda>a. gen_catch (Error 1 ''Expected error.'') Return) []
         (module_load initial)) = Some (Fulfilled (Error 1 ''Expected error.'')) \<and>
     after 3 (foo_Q (\<lambda>a. gen_catch (Error 1 ''Expected error.'') Return) [] initial)
       = Some (Fulfilled (Error 1 ''Expected error.'')) \<and>
     after 3 (foo (\<lambda>a. gen_try_throw (Error 1 ''Expected error.'') Return) []
         (module_load initial)) = Some (Fulfilled (Error 1 ''Expected error.''))"
    using u by simp
  from wf_after_belay v 1 2 3 show ?thesis by simp
qed

section \<open>Errors that leave the body\<close>




section \<open>The promise a wrapper call returns\<close>




section \<open>Nested wrapped functions\<close>



section \<open>Global state\<close>

text \<open>
  C9. Loading the module sets the global \<open>Promise\<close> to Bluebird, turns long stack traces
  on and registers the yield handler, and changes nothing else. A call of a wrapper,
  followed by any number of turns of the event loop, leaves these three settings as they
  were, for every body, arguments and state of the host.
\<close>

theorem wrapper_calls_keep_globals:
  "Promise_global (module_load w) = Bluebird \<and> longStackTraces (module_load w) = True \<and>
   yieldHandlers (module_load w) = yieldHandlers w @ [Resolve_handler] \<and>
   heap (module_load w) = heap w \<and> queue (module_load w) = queue w \<and>
   Promise_global (run n (snd (foo g args w))) = Promise_global w \<and>
   longStackTraces (run n (snd (foo g args w))) = longStackTraces w \<and>
   yieldHandlers (run n (snd (foo g args w))) = yieldHandlers w \<and>
   Promise_global (run n (snd (foo_Q g args w))) = Promise_global w \<and>
   longStackTraces (run n (snd (foo_Q g args w))) = longStackTraces w \<and>
   yieldHandlers (run n (snd (foo_Q g args w))) = yieldHandlers w"
  using globals_run [of n "snd (foo g args w)"] globals_run [of n "snd (foo_Q g args w)"]
    foo_facts(3-5) [of g args w] foo_Q_shape(2-4) [of g args w]
  by (simp add: module_load_def)

theorem wrapper_calls_keep_globals_witness:
  "yieldHandlers (module_load initial) = [Resolve_handler] \<and>
   Promise_global (run 3 (snd (foo (\<lambda>a. gen_async (Num 3)) [] (module_load initial)))) = Bluebird \<and>
   longStackTraces (run 3 (snd (foo (\<lambda>a. gen_async (Num 3)) [] (module_load initial)))) = True \<and>
   yieldHandlers (run 3 (snd (foo (\<lambda>a. gen_async (Num 3)) [] (module_load initial))))
     = [Resolve_handler] \<and>
   Promise_global (run 3 (snd (foo_Q (\<lambda>a. gen_async (Num 3)) [] initial))) = Native"
  using wrapper_calls_keep_globals [where w = "module_load initial" and n = 3
      and g = "\<lambda>a. gen_async (Num 3)" and args = "[]"]
    wrapper_calls_keep_globals [where w = initial and n = 3
      and g = "\<lambda>a. gen_async (Num 3)" and args = "[]"]
  by (simp add: initial_def module_load_def)

section \<open>The wrapper around Q.async\<close>

text \<open>
  C10. In a well-formed state of the host (the initial state is one, and the states that
  follow the call are), every call of the wrapper around \<open>Q.async\<close> returns a reference
  to a promise that did not exist before the call, made by the global \<open>Promise\<close>
  constructor, and distinct from the promise \<open>Q.async\<close> returned (which Q made). Whenever
  the returned promise is settled, the promise of \<open>Q.async\<close> is settled with the same
  outcome; and once the promise of \<open>Q.async\<close> is settled, the returned promise is settled
  with that outcome from some turn on. The promise of \<open>Q.async\<close> in the world the wrapper
  leaves is the one the call of \<open>Q.async\<close> made: apart from the returned promise, which is
  new and pending, and from what belongs to it, the world the wrapper leaves is the world
  that the call of \<open>Q.async\<close> on the generator function and the arguments leaves (the
  same promises, with their states, makers and continuations, and the same queue). And
  it is the promise the generator drives: when the body ends inside the call or on a
  later turn that resumes it, with the plain value it returns or the error it raises,
  the returned promise is settled with that value or error from some turn on; while the
  continuation of the body is registered or queued, the returned promise is pending.
\<close>

theorem foo_Q_fresh_promise:
  assumes "wf_world w"
  shows "\<exists>a. fst (foo_Q generator args w) = Promise a \<and>
           fst (Q_async generator args w) < a \<and> length (heap w) \<le> a \<and>
           a < length (heap (snd (foo_Q generator args w))) \<and>
           maker (heap (snd (foo_Q generator args w)) ! a) = Promise_global w \<and>
           maker (heap (snd (foo_Q generator args w)) ! fst (Q_async generator args w)) = Q \<and>
           (\<forall>n. wf_world (run n (snd (foo_Q generator args w)))) \<and>
           (\<forall>n oc. after n (foo_Q generator args w) = Some oc \<longrightarrow>
              promise_state (run n (snd (foo_Q generator args w)))
                (Promise (fst (Q_async generator args w))) = Some oc) \<and>
           (\<forall>n oc. promise_state (run n (snd (foo_Q generator args w)))
                (Promise (fst (Q_async generator args w))) = Some oc \<longrightarrow>
              (\<exists>k. \<forall>m\<ge>k. after m (foo_Q generator args w) = Some oc)) \<and>
           fst (Q_async generator args w) = length (heap w) \<and>
           a = length (heap (snd (Q_async generator args w))) \<and>
           length (heap (snd (foo_Q generator args w))) = Suc a \<and>
           state (heap (snd (foo_Q generator args w)) ! a) = None \<and>
           (\<forall>i < a.
              state (heap (snd (foo_Q generator args w)) ! i)
                = state (heap (snd (Q_async generator args w)) ! i) \<and>
              maker (heap (snd (foo_Q generator args w)) ! i)
                = maker (heap (snd (Q_async generator args w)) ! i) \<and>
              filter (\<lambda>r. reaction_target r \<noteq> a) (waiting (heap (snd (foo_Q generator args w)) ! i))
                = waiting (heap (snd (Q_async generator args w)) ! i)) \<and>
           filter (\<lambda>j. job_target j \<noteq> a) (queue (snd (foo_Q generator args w)))
             = queue (snd (Q_async generator args w)) \<and>
           (\<forall>R. ends Q_based (generator args) (snd (new_cell Q None w)) = Some R \<longrightarrow>
              (\<exists>k. \<forall>m\<ge>k. after m (foo_Q generator args w) = Some R)) \<and>
           (\<forall>n var kn kt oc js R.
              queue (run n (snd (foo_Q generator args w)))
                = React (Resume var kn kt (length (heap w))) oc # js \<and>
              ends var (body_of oc kn kt) ((run n (snd (foo_Q generator args w)))\<lparr>queue := js\<rparr>)
                = Some R \<longrightarrow>
              (\<exists>k. \<forall>m\<ge>k. after m (foo_Q generator args w) = Some R)) \<and>
           (\<forall>n. 0 < claims (length (heap w)) (run n (snd (foo_Q generator args w))) \<longrightarrow>
              after n (foo_Q generator args w) = None)"
proof -
  define q where "q = length (heap w)"
  define a where "a = length (heap (snd (Q_async generator args w)))"
  define w' where "w' = snd (foo_Q generator args w)"
  note f = foo_Q_facts [OF assms, of generator args, folded q_def a_def w'_def]
  have q: "fst (Q_async generator args w) = q"
    using Q_async_facts(1) [OF assms] by (simp add: q_def)
  have inv: "\<And>n. wf_world (run n w') \<and> linked a q (run n w')"
    using linked_run [OF f(4,5)] by simp
  have lt: "\<And>n. a < length (heap (run n w')) \<and> q < length (heap (run n w'))"
    using inv by (simp add: linked_def)
  have safe: "\<forall>n oc. after n (foo_Q generator args w) = Some oc \<longrightarrow>
              promise_state (run n w') (Promise q) = Some oc"
  proof (intro allI impI)
    fix n oc assume "after n (foo_Q generator args w) = Some oc"
    then have "state (heap (run n w') ! a) = Some oc"
      using f(1) lt [of n] by (simp add: after_def promise_state_def w'_def)
    then have "state (heap (run n w') ! q) = Some oc"
      using inv [of n] by (simp add: linked_def)
    then show "promise_state (run n w') (Promise q) = Some oc"
      using lt [of n] by (simp add: promise_state_def)
  qed
  have live: "\<forall>n oc. promise_state (run n w') (Promise q) = Some oc \<longrightarrow>
              (\<exists>k. \<forall>m\<ge>k. after m (foo_Q generator args w) = Some oc)"
  proof (intro allI impI)
    fix n oc assume "promise_state (run n w') (Promise q) = Some oc"
    then have "state (heap (run n w') ! q) = Some oc"
      using lt [of n] by (simp add: promise_state_def)
    then obtain k where k: "\<forall>m\<ge>k. a < length (heap (run m (run n w'))) \<and>
        state (heap (run m (run n w')) ! a) = Some oc"
      using linked_settles inv [of n] by blast
    have "\<forall>m\<ge>n + k. after m (foo_Q generator args w) = Some oc"
    proof (intro allI impI)
      fix m assume "n + k \<le> m"
      then have "run m w' = run (m - n) (run n w')" "k \<le> m - n"
        using run_add [of n "m - n" w'] by simp_all
      then show "after m (foo_Q generator args w) = Some oc"
        using k f(1) by (simp add: after_def promise_state_def w'_def)
    qed
    then show "\<exists>k. \<forall>m\<ge>k. after m (foo_Q generator args w) = Some oc" by blast
  qed
  have wfs: "\<forall>n. wf_world (run n w')" using inv by simp
  note fr = foo_Q_frame [OF assms, of generator args, folded a_def w'_def]
  have e1: "\<forall>R. ends Q_based (generator args) (snd (new_cell Q None w)) = Some R \<longrightarrow>
      (\<exists>k. \<forall>m\<ge>k. after m (foo_Q generator args w) = Some R)"
    using foo_Q_ends(1) [OF assms] by blast
  have e2: "\<forall>n var kn kt oc js R.
      queue (run n w') = React (Resume var kn kt q) oc # js \<and>
      ends var (body_of oc kn kt) ((run n w')\<lparr>queue := js\<rparr>) = Some R \<longrightarrow>
      (\<exists>k. \<forall>m\<ge>k. after m (foo_Q generator args w) = Some R)"
    unfolding w'_def q_def using foo_Q_ends(2) [OF assms] by blast
  have e3: "\<forall>n. 0 < claims q (run n w') \<longrightarrow> after n (foo_Q generator args w) = None"
    unfolding w'_def q_def using foo_Q_ends(3) [OF assms] by blast
  have old: "fst (foo_Q generator args w) = Promise a \<and>
           q < a \<and> length (heap w) \<le> a \<and>
           a < length (heap w') \<and>
           maker (heap w' ! a) = Promise_global w \<and>
           maker (heap w' ! q) = Q \<and>
           (\<forall>n. wf_world (run n w')) \<and>
           (\<forall>n oc. after n (foo_Q generator args w) = Some oc \<longrightarrow>
              promise_state (run n w') (Promise q) = Some oc) \<and>
           (\<forall>n oc. promise_state (run n w') (Promise q) = Some oc \<longrightarrow>
              (\<exists>k. \<forall>m\<ge>k. after m (foo_Q generator args w) = Some oc))"
    using f(1,2,3,6,7) wfs safe live by (simp add: q_def)
  have new: "q = length (heap w) \<and>
           a = length (heap (snd (Q_async generator args w))) \<and>
           length (heap w') = Suc a \<and>
           state (heap w' ! a) = None \<and>
           (\<forall>i < a.
              state (heap w' ! i) = state (heap (snd (Q_async generator args w)) ! i) \<and>
              maker (heap w' ! i) = maker (heap (snd (Q_async generator args w)) ! i) \<and>
              filter (\<lambda>r. reaction_target r \<noteq> a) (waiting (heap w' ! i))
                = waiting (heap (snd (Q_async generator args w)) ! i)) \<and>
           filter (\<lambda>j. job_target j \<noteq> a) (queue w') = queue (snd (Q_async generator args w)) \<and>
           (\<forall>R. ends Q_based (generator args) (snd (new_cell Q None w)) = Some R \<longrightarrow>
              (\<exists>k. \<forall>m\<ge>k. after m (foo_Q generator args w) = Some R)) \<and>
           (\<forall>n var kn kt oc js R.
              queue (run n w') = React (Resume var kn kt q) oc # js \<and>
              ends var (body_of oc kn kt) ((run n w')\<lparr>queue := js\<rparr>) = Some R \<longrightarrow>
              (\<exists>k. \<forall>m\<ge>k. after m (foo_Q generator args w) = Some R)) \<and>
           (\<forall>n. 0 < claims q (run n w') \<longrightarrow> after n (foo_Q generator args w) = None)"
    using fr e1 e2 e3 by (intro conjI) (simp_all add: q_def a_def)
  have "fst (foo_Q generator args w) = Promise a \<and>
           q < a \<and> length (heap w) \<le> a \<and>
           a < length (heap w') \<and>
           maker (heap w' ! a) = Promise_global w \<and>
           maker (heap w' ! q) = Q \<and>
           (\<forall>n. wf_world (run n w')) \<and>
           (\<forall>n oc. after n (foo_Q generator args w) = Some oc \<longrightarrow>
              promise_state (run n w') (Promise q) = Some oc) \<and>
           (\<forall>n oc. promise_state (run n w') (Promise q) = Some oc \<longrightarrow>
              (\<exists>k. \<forall>m\<ge>k. after m (foo_Q generator args w) = Some oc)) \<and>
           q = length (heap w) \<and>
           a = length (heap (snd (Q_async generator args w))) \<and>
           length (heap w') = Suc a \<and>
           state (heap w' ! a) = None \<and>
           (\<forall>i < a.
              state (heap w' ! i) = state (heap (snd (Q_async generator args w)) ! i) \<and>
              maker (heap w' ! i) = maker (heap (snd (Q_async generator args w)) ! i) \<and>
              filter (\<lambda>r. reaction_target r \<noteq> a) (waiting (heap w' ! i))
                = waiting (heap (snd (Q_async generator args w)) ! i)) \<and>
           filter (\<lambda>j. job_target j \<noteq> a) (queue w') = queue (snd (Q_async generator args w)) \<and>
           (\<forall>R. ends Q_based (generator args) (snd (new_cell Q None w)) = Some R \<longrightarrow>
              (\<exists>k. \<forall>m\<ge>k. after m (foo_Q generator args w) = Some R)) \<and>
           (\<forall>n var kn kt oc js R.
              queue (run n w') = React (Resume var kn kt q) oc # js \<and>
              ends var (body_of oc kn kt) ((run n w')\<lparr>queue := js\<rparr>) = Some R \<longrightarrow>
              (\<exists>k. \<forall>m\<ge>k. after m (foo_Q generator args w) = Some R)) \<and>
           (\<forall>n. 0 < claims q (run n w') \<longrightarrow> after n (foo_Q generator args w) = None)"
    using old new by (elim conjE) (intro conjI)
  then show ?thesis
    unfolding q w'_def [symmetric] q_def [symmetric] by (rule exI [of _ a])
qed

theorem foo_Q_fresh_promise_witness:
  "wf_world initial \<and>
   (\<exists>a. fst (foo_Q (\<lambda>a. gen_rejected (Error 7 ''boom'')) [] initial) = Promise a \<and>
        fst (Q_async (\<lambda>a. gen_rejected (Error 7 ''boom'')) [] initial) < a \<and>
        maker (heap (snd (foo_Q (\<lambda>a. gen_rejected (Error 7 ''boom'')) [] initial)) ! a) = Native \<and>
        maker (heap (snd (foo_Q (\<lambda>a. gen_rejected (Error 7 ''boom'')) [] initial)) !
          fst (Q_async (\<lambda>a. gen_rejected (Error 7 ''boom'')) [] initial)) = Q) \<and>
   after 3 (foo_Q (\<lambda>a. gen_rejected (Error 7 ''boom'')) [] initial)
     = Some (Rejected (Error 7 ''boom'')) \<and>
   promise_state (run 3 (snd (foo_Q (\<lambda>a. gen_rejected (Error 7 ''boom'')) [] initial)))
     (Promise (fst (Q_async (\<lambda>a. gen_rejected (Error 7 ''boom'')) [] initial)))
     = Some (Rejected (Error 7 ''boom'')) \<and>
   ends Q_based (Return (Num 3)) (snd (new_cell Q None initial)) = Some (Fulfilled (Num 3)) \<and>
   (\<exists>k. after k (foo_Q (\<lambda>a. Return (Num 3)) [] initial) = Some (Fulfilled (Num 3))) \<and>
   after 1 (foo_Q (\<lambda>a. Return (Num 3)) [] initial) = Some (Fulfilled (Num 3))"
proof -
  have wf: "wf_world initial" by (simp add: wf_world_def initial_def)
  have a: "after 3 (foo_Q (\<lambda>a. gen_rejected (Error 7 ''boom'')) [] initial)
      = Some (Rejected (Error 7 ''boom''))"
    using rejected_Q [of initial "Error 7 ''boom''" "[]"]
    by (simp add: done_at_after initial_def)
  note t = foo_Q_fresh_promise [OF wf, of "\<lambda>a. gen_rejected (Error 7 ''boom'')" "[]"]
  have old: "wf_world initial \<and>
   (\<exists>a. fst (foo_Q (\<lambda>a. gen_rejected (Error 7 ''boom'')) [] initial) = Promise a \<and>
        fst (Q_async (\<lambda>a. gen_rejected (Error 7 ''boom'')) [] initial) < a \<and>
        maker (heap (snd (foo_Q (\<lambda>a. gen_rejected (Error 7 ''boom'')) [] initial)) ! a) = Native \<and>
        maker (heap (snd (foo_Q (\<lambda>a. gen_rejected (Error 7 ''boom'')) [] initial)) !
          fst (Q_async (\<lambda>a. gen_rejected (Error 7 ''boom'')) [] initial)) = Q) \<and>
   after 3 (foo_Q (\<lambda>a. gen_rejected (Error 7 ''boom'')) [] initial)
     = Some (Rejected (Error 7 ''boom'')) \<and>
   promise_state (run 3 (snd (foo_Q (\<lambda>a. gen_rejected (Error 7 ''boom'')) [] initial)))
     (Promise (fst (Q_async (\<lambda>a. gen_rejected (Error 7 ''boom'')) [] initial)))
     = Some (Rejected (Error 7 ''boom''))"
    using wf a t by (auto simp: initial_def)
  note r = foo_Q_fresh_promise [OF wf, of "\<lambda>a. Return (Num 3)" "[]"]
  have e: "ends Q_based (Return (Num 3)) (snd (new_cell Q None initial)) = Some (Fulfilled (Num 3))"
    by (simp add: awaitable_def)
  have "\<forall>R. ends Q_based (Return (Num 3)) (snd (new_cell Q None initial)) = Some R \<longrightarrow>
      (\<exists>k. \<forall>m\<ge>k. after m (foo_Q (\<lambda>a. Return (Num 3)) [] initial) = Some R)"
    using r by (elim exE conjE)
  then have "\<exists>k. \<forall>m\<ge>k. after m (foo_Q (\<lambda>a. Return (Num 3)) [] initial) = Some (Fulfilled (Num 3))"
    using e by blast
  then have k: "\<exists>k. after k (foo_Q (\<lambda>a. Return (Num 3)) [] initial) = Some (Fulfilled (Num 3))"
    by (rule eventually_some)
  have o: "after 1 (foo_Q (\<lambda>a. Return (Num 3)) [] initial) = Some (Fulfilled (Num 3))"
    by (simp add: after_def ops initial_def nth_append)
  from old e k o show ?thesis by (intro conjI) (elim conjE, assumption)+
qed

end
